theory Spec2Isabelle
  imports Complex_Main "HOL-Library.Word" "HOL-Library.Log_Nat"
begin

unbundle bit_operations_syntax

section \<open>Data model of the sharded cache\<close>

text \<open>
  The model follows the current \<^verbatim>\<open>kvcache.go\<close> (the snapshot with
  \<^verbatim>\<open>Close\<close> and the sampling \<^verbatim>\<open>evictOldest\<close>). The older snapshot under
  \<^verbatim>\<open>src/kvcache/kvcache.go\<close> has the same \<^verbatim>\<open>Set\<close>, \<^verbatim>\<open>Get\<close>,
  \<^verbatim>\<open>Delete\<close>, \<^verbatim>\<open>Clear\<close>, \<^verbatim>\<open>HitRate\<close> and the same body of one cleanup
  tick; its \<^verbatim>\<open>evictOldest\<close> scans the whole shard and is modelled separately as
  \<open>evictOldest_scan\<close>.

  Go's \<^verbatim>\<open>int64\<close> (time stamps in nanoseconds, \<^verbatim>\<open>time.Duration\<close>) is a
  \<open>64 word\<close> read with \<open>sint\<close> and compared with \<open><s\<close>; \<^verbatim>\<open>uint64\<close> counters are
  \<open>64 word\<close> read with \<open>unat\<close>; both wrap around as in Go. The live-count
  \<^verbatim>\<open>shard.size\<close> and \<^verbatim>\<open>maxCapacity\<close> are Go \<^verbatim>\<open>int\<close>; they are modelled as
  unbounded \<open>int\<close>, since a map cannot hold \<open>2^63\<close> keys. A value of type
  \<^verbatim>\<open>interface{}\<close> is an \<open>'v option\<close>, \<open>None\<close> being \<^verbatim>\<open>nil\<close>.

  Every operation is modelled as one atomic step (the shard mutex is held for the whole
  of \<^verbatim>\<open>Set\<close> and \<^verbatim>\<open>Delete\<close>; \<^verbatim>\<open>Get\<close> and the cleanup are modelled without
  interleaving between their lock sections). Each call of \<^verbatim>\<open>time.Now()\<close> is a
  separate argument, and each \<^verbatim>\<open>range\<close> over a map takes the sequence of
  key/entry pairs that the Go runtime produces as an argument.
\<close>

type_synonym int64 = "64 word"
type_synonym uint64 = "64 word"
type_synonym uint32 = "32 word"

record 'v CacheEntry =
  Value :: "'v option"
  Expiration :: int64
  lastAccess :: int64

record 'v shard =
  store :: "string \<rightharpoonup> 'v CacheEntry"
  size_n :: int

record 'v KVCache =
  shards :: "'v shard list"
  numShards :: int
  ttl :: int64
  maxCapacity :: int
  entryPool :: "'v CacheEntry list"
  hits :: uint64
  misses :: uint64
  evictions :: uint64

text \<open>A run-time panic of the Go program.\<close>

datatype panic = DivideByZero | IndexOutOfRange

text \<open>
  What \<^verbatim>\<open>for key, entry := range m\<close> produces: every key of the map once, in an order
  chosen by the runtime, each with its entry.
\<close>

definition ranges :: "(string \<rightharpoonup> 'v CacheEntry) \<Rightarrow> (string \<times> 'v CacheEntry) list \<Rightarrow> bool" where
  "ranges m kvs \<longleftrightarrow> distinct (map fst kvs) \<and> map_of kvs = m"

subsection \<open>Library functions the code calls\<close>

text \<open>
  \<^verbatim>\<open>hash/fnv\<close>'s \<^verbatim>\<open>New32a\<close>: 32-bit FNV-1a. \<^verbatim>\<open>Reset\<close> sets the state to the
  offset basis, \<^verbatim>\<open>Write\<close> folds each byte in (xor, then multiply by the prime),
  \<^verbatim>\<open>Sum32\<close> returns the state.
\<close>

definition fnv_offset32 :: uint32 where
  "fnv_offset32 = 2166136261"

definition fnv_prime32 :: uint32 where
  "fnv_prime32 = 16777619"

fun fnv32a_Write :: "uint32 \<Rightarrow> string \<Rightarrow> uint32" where
  "fnv32a_Write h [] = h"
| "fnv32a_Write h (b # bs) = fnv32a_Write ((h XOR of_char b) * fnv_prime32) bs"

definition fnv32a_Sum32 :: "string \<Rightarrow> uint32" where
  "fnv32a_Sum32 key = fnv32a_Write fnv_offset32 key"

text \<open>
  \<^verbatim>\<open>sync.Pool\<close> of entries, as a free list: \<^verbatim>\<open>Put\<close> adds an entry, \<^verbatim>\<open>Get\<close>
  takes one out or, when there is none, calls \<^verbatim>\<open>New\<close>, which returns a zero
  \<^verbatim>\<open>CacheEntry\<close>. (The real pool may also drop entries; \<^verbatim>\<open>Set\<close> overwrites every
  field of the entry it gets, so which entry comes out is not observable.)
\<close>

definition entryPool_New :: "'v CacheEntry" where
  "entryPool_New = \<lparr>Value = None, Expiration = 0, lastAccess = 0\<rparr>"

definition entryPool_Get :: "'v CacheEntry list \<Rightarrow> 'v CacheEntry \<times> 'v CacheEntry list" where
  "entryPool_Get pool = (case pool of [] \<Rightarrow> (entryPool_New, []) | e # es \<Rightarrow> (e, es))"

definition entryPool_Put :: "'v CacheEntry \<Rightarrow> 'v CacheEntry list \<Rightarrow> 'v CacheEntry list" where
  "entryPool_Put e pool = e # pool"

text \<open>\<^verbatim>\<open>math.MaxInt64\<close>.\<close>

definition MaxInt64 :: int64 where
  "MaxInt64 = 9223372036854775807"

section \<open>Construction and routing\<close>

definition NewKVCacheWithCapacity :: "int64 \<Rightarrow> int \<Rightarrow> 'v KVCache" where
  "NewKVCacheWithCapacity defaultTTL maxCapacityPerShard =
     \<lparr>shards = replicate 256 \<lparr>store = Map.empty, size_n = 0\<rparr>,
      numShards = 256,
      ttl = defaultTTL,
      maxCapacity = maxCapacityPerShard,
      entryPool = [],
      hits = 0, misses = 0, evictions = 0\<rparr>"

definition NewKVCache :: "int64 \<Rightarrow> 'v KVCache" where
  "NewKVCache defaultTTL = NewKVCacheWithCapacity defaultTTL 0"

text \<open>
  \<^verbatim>\<open>getShard\<close> returns a pointer to a shard of the cache; the model returns its index
  in \<open>shards c\<close>. The remainder by zero and the index out of range are the two panics
  the Go code can raise here.
\<close>

definition getShard :: "'v KVCache \<Rightarrow> string \<Rightarrow> panic + nat" where
  "getShard c key =
     (let n = (word_of_int (numShards c) :: uint32) in
      if n = 0 then Inl DivideByZero
      else let idx = unat (fnv32a_Sum32 key mod n) in
        if idx < length (shards c) then Inr idx else Inl IndexOutOfRange)"

section \<open>Eviction\<close>

definition sampleSize :: nat where
  "sampleSize = 5"

text \<open>
  The loop of \<^verbatim>\<open>evictOldest\<close> over the pairs the \<^verbatim>\<open>range\<close> produces, with its
  loop variables \<^verbatim>\<open>sampled\<close>, \<^verbatim>\<open>oldestKey\<close> and \<^verbatim>\<open>oldestTime\<close>.
\<close>

fun evict_loop :: "(string \<times> 'v CacheEntry) list \<Rightarrow> nat \<Rightarrow> string \<times> int64 \<Rightarrow> string \<times> int64" where
  "evict_loop [] sampled (oldestKey, oldestTime) = (oldestKey, oldestTime)"
| "evict_loop ((key, entry) # rest) sampled (oldestKey, oldestTime) =
     (if sampled \<ge> sampleSize then (oldestKey, oldestTime)
      else if lastAccess entry <s oldestTime
        then evict_loop rest (sampled + 1) (key, lastAccess entry)
        else evict_loop rest (sampled + 1) (oldestKey, oldestTime))"

text \<open>
  The removal that ends both versions of \<^verbatim>\<open>evictOldest\<close>; \<open>i\<close> is the index of the
  shard \<^verbatim>\<open>s\<close> points to.
\<close>

definition evict_key :: "'v KVCache \<Rightarrow> nat \<Rightarrow> string \<Rightarrow> 'v KVCache" where
  "evict_key c i oldestKey =
     (if oldestKey \<noteq> '''' then
        (let s = shards c ! i in
         case store s oldestKey of
           Some entry \<Rightarrow>
             c\<lparr>shards := (shards c)[i := s\<lparr>store := (store s)(oldestKey := None), size_n := size_n s - 1\<rparr>],
               entryPool := entryPool_Put entry (entryPool c),
               evictions := evictions c + 1\<rparr>
         | None \<Rightarrow> c)
      else c)"

definition evictOldest :: "'v KVCache \<Rightarrow> nat \<Rightarrow> (string \<times> 'v CacheEntry) list \<Rightarrow> 'v KVCache" where
  "evictOldest c i kvs = evict_key c i (fst (evict_loop kvs 0 ('''', MaxInt64)))"

text \<open>The older \<^verbatim>\<open>evictOldest\<close> of \<^verbatim>\<open>src/kvcache/kvcache.go\<close>: a scan of the whole shard.\<close>

fun scan_loop :: "(string \<times> 'v CacheEntry) list \<Rightarrow> string \<times> int64 \<Rightarrow> string \<times> int64" where
  "scan_loop [] (oldestKey, oldestTime) = (oldestKey, oldestTime)"
| "scan_loop ((key, entry) # rest) (oldestKey, oldestTime) =
     (if lastAccess entry <s oldestTime
      then scan_loop rest (key, lastAccess entry)
      else scan_loop rest (oldestKey, oldestTime))"

definition evictOldest_scan :: "'v KVCache \<Rightarrow> nat \<Rightarrow> (string \<times> 'v CacheEntry) list \<Rightarrow> 'v KVCache" where
  "evictOldest_scan c i kvs = evict_key c i (fst (scan_loop kvs ('''', MaxInt64)))"

section \<open>Set, Get, Delete\<close>

text \<open>
  \<^verbatim>\<open>time.Now().Add(d).UnixNano()\<close> with the clock reading \<open>now\<close>, in \<^verbatim>\<open>int64\<close>
  arithmetic.
\<close>

definition deadline :: "int64 \<Rightarrow> int64 \<Rightarrow> int64" where
  "deadline now d = now + d"

text \<open>
  \<^verbatim>\<open>Set(key, value, ttl...)\<close>. \<open>now0\<close>, \<open>now1\<close> and \<open>now2\<close> are the readings of
  the three \<^verbatim>\<open>time.Now()\<close> calls in source order, \<open>kvs\<close> is what the \<^verbatim>\<open>range\<close> in
  \<^verbatim>\<open>evictOldest\<close> produces if it runs, and \<open>ttls\<close> is the variadic argument.
\<close>

definition Set :: "'v KVCache \<Rightarrow> int64 \<Rightarrow> int64 \<Rightarrow> int64 \<Rightarrow> (string \<times> 'v CacheEntry) list \<Rightarrow>
    string \<Rightarrow> 'v option \<Rightarrow> int64 list \<Rightarrow> panic + 'v KVCache" where
  "Set c now0 now1 now2 kvs key val ttls =
     (case getShard c key of
        Inl p \<Rightarrow> Inl p
      | Inr i \<Rightarrow>
          let expiration0 = deadline now0 (ttl c);
              expiration = (if length ttls > 0 \<and> 0 <s ttls ! 0 then deadline now1 (ttls ! 0)
                            else expiration0);
              c1 = (if maxCapacity c > 0 \<and> size_n (shards c ! i) \<ge> maxCapacity c
                    then (if store (shards c ! i) key = None then evictOldest c i kvs else c)
                    else c);
              s = shards c1 ! i;
              (entry, pool, s1) =
                (case store s key of
                   Some e \<Rightarrow> (e, entryPool c1, s)
                 | None \<Rightarrow>
                     let (e, pool') = entryPool_Get (entryPool c1)
                     in (e, pool', s\<lparr>size_n := size_n s + 1\<rparr>));
              entry1 = entry\<lparr>Value := val, Expiration := expiration, lastAccess := now2\<rparr>
          in Inr (c1\<lparr>shards := (shards c1)[i := s1\<lparr>store := (store s1)(key \<mapsto> entry1)\<rparr>],
                     entryPool := pool\<rparr>))"

text \<open>
  \<^verbatim>\<open>Get(key)\<close>. \<open>now\<close> is the clock reading of the fast path, \<open>freshNow\<close> the one
  taken after the lock upgrade. The result is the pair the Go function returns, with the
  cache as it is left.
\<close>

definition Get :: "'v KVCache \<Rightarrow> int64 \<Rightarrow> int64 \<Rightarrow> string \<Rightarrow> panic + (('v option \<times> bool) \<times> 'v KVCache)" where
  "Get c now freshNow key =
     (case getShard c key of
        Inl p \<Rightarrow> Inl p
      | Inr i \<Rightarrow>
          let s = shards c ! i in
          (case store s key of
             None \<Rightarrow> Inr ((None, False), c\<lparr>misses := misses c + 1\<rparr>)
           | Some entry \<Rightarrow>
               let expiration = Expiration entry in
               if 0 <s expiration \<and> expiration <s now then
                 (let c1 =
                    (case store s key of
                       Some freshEntry \<Rightarrow>
                         let freshExp = Expiration freshEntry in
                         if 0 <s freshExp \<and> freshExp <s freshNow
                         then c\<lparr>shards := (shards c)[i := s\<lparr>store := (store s)(key := None),
                                                             size_n := size_n s - 1\<rparr>],
                                entryPool := entryPool_Put freshEntry (entryPool c)\<rparr>
                         else c
                     | None \<Rightarrow> c)
                  in Inr ((None, False), c1\<lparr>misses := misses c1 + 1\<rparr>))
               else
                 Inr ((Value entry, True),
                      c\<lparr>shards := (shards c)[i := s\<lparr>store := (store s)(key \<mapsto> entry\<lparr>lastAccess := now\<rparr>)\<rparr>],
                        hits := hits c + 1\<rparr>)))"

definition Delete :: "'v KVCache \<Rightarrow> string \<Rightarrow> panic + 'v KVCache" where
  "Delete c key =
     (case getShard c key of
        Inl p \<Rightarrow> Inl p
      | Inr i \<Rightarrow>
          let s = shards c ! i in
          (case store s key of
             Some entry \<Rightarrow>
               Inr (c\<lparr>shards := (shards c)[i := s\<lparr>store := (store s)(key := None),
                                                  size_n := size_n s - 1\<rparr>],
                      entryPool := entryPool_Put entry (entryPool c)\<rparr>)
           | None \<Rightarrow> Inr c))"

section \<open>Background cleanup and Clear\<close>

text \<open>
  One tick of the ticker in \<^verbatim>\<open>cleanup\<close>, for the shard with index \<open>i\<close>. Phase 1
  collects the keys whose deadline has passed from the pairs the \<^verbatim>\<open>range\<close>
  produces; phase 2 looks each of them up again and deletes it if it is still expired.
\<close>

fun collect_expired :: "int64 \<Rightarrow> (string \<times> 'v CacheEntry) list \<Rightarrow> string list \<Rightarrow> string list" where
  "collect_expired now [] expiredKeys = expiredKeys"
| "collect_expired now ((key, entry) # rest) expiredKeys =
     (let expiration = Expiration entry in
      if 0 <s expiration \<and> expiration <s now
      then collect_expired now rest (expiredKeys @ [key])
      else collect_expired now rest expiredKeys)"

fun delete_expired :: "int64 \<Rightarrow> string list \<Rightarrow> 'v shard \<times> 'v CacheEntry list \<Rightarrow>
    'v shard \<times> 'v CacheEntry list" where
  "delete_expired now [] (s, pool) = (s, pool)"
| "delete_expired now (key # keys) (s, pool) =
     (case store s key of
        Some entry \<Rightarrow>
          let exp = Expiration entry in
          if 0 <s exp \<and> exp <s now
          then delete_expired now keys
                 (s\<lparr>store := (store s)(key := None), size_n := size_n s - 1\<rparr>,
                  entryPool_Put entry pool)
          else delete_expired now keys (s, pool)
      | None \<Rightarrow> delete_expired now keys (s, pool))"

definition cleanup_shard :: "'v KVCache \<Rightarrow> int64 \<Rightarrow> nat \<Rightarrow> (string \<times> 'v CacheEntry) list \<Rightarrow> 'v KVCache" where
  "cleanup_shard c now i kvs =
     (let expiredKeys = collect_expired now kvs [] in
      if length expiredKeys > 0 then
        (let (s, pool) = delete_expired now expiredKeys (shards c ! i, entryPool c)
         in c\<lparr>shards := (shards c)[i := s], entryPool := pool\<rparr>)
      else c)"

text \<open>
  The body of \<^verbatim>\<open>case <-ticker.C\<close>: every shard in slice order; \<open>kvss i\<close> is what
  the \<^verbatim>\<open>range\<close> over the store of shard \<open>i\<close> produces.
\<close>

definition cleanup_tick :: "'v KVCache \<Rightarrow> int64 \<Rightarrow> (nat \<Rightarrow> (string \<times> 'v CacheEntry) list) \<Rightarrow> 'v KVCache" where
  "cleanup_tick c now kvss =
     fold (\<lambda>i c1. cleanup_shard c1 now i (kvss i)) [0..<length (shards c)] c"

fun clear_loop :: "(string \<times> 'v CacheEntry) list \<Rightarrow> 'v shard \<times> 'v CacheEntry list \<Rightarrow>
    'v shard \<times> 'v CacheEntry list" where
  "clear_loop [] (s, pool) = (s, pool)"
| "clear_loop ((key, entry) # rest) (s, pool) =
     clear_loop rest (s\<lparr>store := (store s)(key := None)\<rparr>, entryPool_Put entry pool)"

definition Clear_shard :: "'v KVCache \<Rightarrow> nat \<Rightarrow> (string \<times> 'v CacheEntry) list \<Rightarrow> 'v KVCache" where
  "Clear_shard c i kvs =
     (let (s, pool) = clear_loop kvs (shards c ! i, entryPool c)
      in c\<lparr>shards := (shards c)[i := s\<lparr>size_n := 0\<rparr>], entryPool := pool\<rparr>)"

definition Clear :: "'v KVCache \<Rightarrow> (nat \<Rightarrow> (string \<times> 'v CacheEntry) list) \<Rightarrow> 'v KVCache" where
  "Clear c kvss = fold (\<lambda>i c1. Clear_shard c1 i (kvss i)) [0..<length (shards c)] c"

section \<open>Statistics\<close>

record CacheStats =
  Hits :: uint64
  Misses :: uint64
  Evictions :: uint64
  Size_field :: uint64

definition Size :: "'v KVCache \<Rightarrow> int" where
  "Size c = fold (\<lambda>s total. total + size_n s) (shards c) 0"

definition Stats :: "'v KVCache \<Rightarrow> CacheStats" where
  "Stats c = \<lparr>Hits = hits c, Misses = misses c, Evictions = evictions c,
              Size_field = word_of_int (Size c)\<rparr>"

text \<open>
  The \<^verbatim>\<open>float64\<close> values \<^verbatim>\<open>HitRate\<close> can produce: a finite number, or the
  \<^verbatim>\<open>+Inf\<close> and \<^verbatim>\<open>NaN\<close> that a division by zero gives in Go. A finite value is
  the real number the IEEE 754 binary64 value stands for. Only values that are not negative
  occur here, and the model covers those.

  Every \<^verbatim>\<open>float64\<close> operation of Go rounds the exact result to the nearest binary64
  value, ties to the even significand. \<open>float64_exponent x\<close> is the \<open>e\<close> with
  \<open>2^e \<le> x < 2^(e+1)\<close> for \<open>x > 0\<close>; the spacing of the binary64 values around \<open>x\<close> is
  \<open>2^(e - 52)\<close>, and never less than \<open>2^(-1074)\<close> (the subnormal range); a result that
  rounds to \<open>2^1024\<close> or more is \<^verbatim>\<open>+Inf\<close>.
\<close>

datatype float64 = Finite real | PosInf | NaN

definition round_even :: "real \<Rightarrow> int" where
  "round_even q =
     (let f = \<lfloor>q\<rfloor>; r = q - of_int f in
      if r < 1 / 2 then f
      else if 1 / 2 < r then f + 1
      else if even f then f else f + 1)"

definition float64_exponent :: "real \<Rightarrow> int" where
  "float64_exponent x =
     (if 1 \<le> x then bitlen \<lfloor>x\<rfloor> - 1 else - bitlen (\<lceil>1 / x\<rceil> - 1))"

definition float64_round :: "real \<Rightarrow> float64" where
  "float64_round x =
     (if x = 0 then Finite 0
      else let k = max (float64_exponent x - 52) (- 1074);
               y = of_int (round_even (x / 2 powi k)) * 2 powi k
           in if 2 ^ 1024 \<le> y then PosInf else Finite y)"

text \<open>The conversion \<^verbatim>\<open>float64(x)\<close> of a \<^verbatim>\<open>uint64\<close>, and the operators \<^verbatim>\<open>/\<close> and \<^verbatim>\<open>*\<close>.\<close>

definition float64_of_uint64 :: "uint64 \<Rightarrow> float64" where
  "float64_of_uint64 w = float64_round (of_int (uint w))"

fun float64_div :: "float64 \<Rightarrow> float64 \<Rightarrow> float64" where
  "float64_div (Finite a) (Finite b) =
     (if b = 0 then (if a = 0 then NaN else PosInf) else float64_round (a / b))"
| "float64_div (Finite a) PosInf = Finite 0"
| "float64_div PosInf (Finite b) = PosInf"
| "float64_div _ _ = NaN"

fun float64_mul :: "float64 \<Rightarrow> float64 \<Rightarrow> float64" where
  "float64_mul (Finite a) (Finite b) = float64_round (a * b)"
| "float64_mul PosInf (Finite b) = (if b = 0 then NaN else PosInf)"
| "float64_mul (Finite a) PosInf = (if a = 0 then NaN else PosInf)"
| "float64_mul PosInf PosInf = PosInf"
| "float64_mul _ _ = NaN"

definition HitRate :: "CacheStats \<Rightarrow> float64" where
  "HitRate s =
     (let total = Hits s + Misses s in
      if total = 0 then Finite 0
      else float64_mul (float64_div (float64_of_uint64 (Hits s)) (float64_of_uint64 total))
             (Finite 100))"

section \<open>Well-formed caches and observations\<close>

text \<open>What the constructor establishes and no operation changes.\<close>

definition wf_cache :: "'v KVCache \<Rightarrow> bool" where
  "wf_cache c \<longleftrightarrow> numShards c = 256 \<and> length (shards c) = 256"

text \<open>The entry stored under a key in its shard, if any.\<close>

definition lookup :: "'v KVCache \<Rightarrow> string \<Rightarrow> 'v CacheEntry option" where
  "lookup c key = (case getShard c key of Inl p \<Rightarrow> None | Inr i \<Rightarrow> store (shards c ! i) key)"

text \<open>The expiry test of \<^verbatim>\<open>Get\<close> and of the cleanup: \<^verbatim>\<open>expiration > 0 && now > expiration\<close>.\<close>

definition expired :: "int64 \<Rightarrow> 'v CacheEntry \<Rightarrow> bool" where
  "expired now entry \<longleftrightarrow> 0 <s Expiration entry \<and> Expiration entry <s now"

text \<open>
  The deadline \<^verbatim>\<open>Set\<close> is specified to store: the clock reading plus the override
  when one is given and strictly positive, plus the default TTL otherwise. \<open>override\<close>
  reads the optional override off the variadic argument.
\<close>

definition override :: "int64 list \<Rightarrow> int64 option" where
  "override ttls = (case ttls of [] \<Rightarrow> None | d # ds \<Rightarrow> Some d)"

definition spec_deadline :: "int64 \<Rightarrow> int64 \<Rightarrow> int64 \<Rightarrow> int64 option \<Rightarrow> int64" where
  "spec_deadline defaultTTL now0 now1 ovr =
     (case ovr of
        None \<Rightarrow> now0 + defaultTTL
      | Some d \<Rightarrow> if 0 <s d then now1 + d else now0 + defaultTTL)"

text \<open>
  The same deadline over the unbounded integers, where the sum cannot wrap around: the
  number that ``now + override, else now + default TTL'' denotes.
\<close>

definition math_deadline :: "int \<Rightarrow> int \<Rightarrow> int \<Rightarrow> int option \<Rightarrow> int" where
  "math_deadline defaultTTL now0 now1 ovr =
     (case ovr of
        None \<Rightarrow> now0 + defaultTTL
      | Some d \<Rightarrow> if 0 < d then now1 + d else now0 + defaultTTL)"

text \<open>\<^verbatim>\<open>Set\<close> followed by \<^verbatim>\<open>Get\<close> of the same key; the result is what \<^verbatim>\<open>Get\<close> returns.\<close>

definition Set_then_Get :: "'v KVCache \<Rightarrow> int64 \<Rightarrow> int64 \<Rightarrow> int64 \<Rightarrow> (string \<times> 'v CacheEntry) list \<Rightarrow>
    string \<Rightarrow> 'v option \<Rightarrow> int64 list \<Rightarrow> int64 \<Rightarrow> int64 \<Rightarrow> panic + ('v option \<times> bool)" where
  "Set_then_Get c now0 now1 now2 kvs key val ttls now freshNow =
     (case Set c now0 now1 now2 kvs key val ttls of
        Inl p \<Rightarrow> Inl p
      | Inr c1 \<Rightarrow> (case Get c1 now freshNow key of Inl p \<Rightarrow> Inl p | Inr (r, c2) \<Rightarrow> Inr r))"

section \<open>The live-count invariant and the reachable states\<close>

definition shard_inv :: "'v shard \<Rightarrow> bool" where
  "shard_inv s \<longleftrightarrow> finite (dom (store s)) \<and> size_n s = int (card (dom (store s)))"

definition cache_inv :: "'v KVCache \<Rightarrow> bool" where
  "cache_inv c \<longleftrightarrow> (\<forall>s \<in> set (shards c). shard_inv s)"

definition ranges_all :: "'v KVCache \<Rightarrow> (nat \<Rightarrow> (string \<times> 'v CacheEntry) list) \<Rightarrow> bool" where
  "ranges_all c kvss \<longleftrightarrow> (\<forall>i < length (shards c). ranges (store (shards c ! i)) (kvss i))"

text \<open>
  One operation on the cache. Where the operation iterates over a map, the pairs it is
  given are those of that map.
\<close>

inductive step :: "'v KVCache \<Rightarrow> 'v KVCache \<Rightarrow> bool" where
  step_Set: "\<lbrakk>getShard c key = Inr i; ranges (store (shards c ! i)) kvs;
      Set c now0 now1 now2 kvs key val ttls = Inr c'\<rbrakk> \<Longrightarrow> step c c'"
| step_Get: "Get c now freshNow key = Inr (r, c') \<Longrightarrow> step c c'"
| step_Delete: "Delete c key = Inr c' \<Longrightarrow> step c c'"
| step_Clear: "ranges_all c kvss \<Longrightarrow> step c (Clear c kvss)"
| step_evictOldest: "\<lbrakk>i < length (shards c); ranges (store (shards c ! i)) kvs\<rbrakk>
      \<Longrightarrow> step c (evictOldest c i kvs)"
| step_evictOldest_scan: "\<lbrakk>i < length (shards c); ranges (store (shards c ! i)) kvs\<rbrakk>
      \<Longrightarrow> step c (evictOldest_scan c i kvs)"
| step_cleanup: "ranges_all c kvss \<Longrightarrow> step c (cleanup_tick c now kvss)"

inductive reachable :: "'v KVCache \<Rightarrow> bool" where
  reachable_New: "reachable (NewKVCacheWithCapacity defaultTTL maxCapacityPerShard)"
| reachable_step: "reachable c \<Longrightarrow> step c c' \<Longrightarrow> reachable c'"

section \<open>Routing and frame lemmas\<close>

lemma getShard_wf:
  assumes "wf_cache c"
  shows "getShard c key = Inr (unat (fnv32a_Sum32 key mod 256))"
    and "unat (fnv32a_Sum32 key mod 256) < length (shards c)"
proof -
  have "fnv32a_Sum32 key mod 256 < 256"
    by (rule word_mod_less_divisor) simp
  then have b: "unat (fnv32a_Sum32 key mod 256) < 256"
    by (simp add: word_less_nat_alt)
  with assms show "unat (fnv32a_Sum32 key mod 256) < length (shards c)"
    by (simp add: wf_cache_def)
  with assms show "getShard c key = Inr (unat (fnv32a_Sum32 key mod 256))"
    by (simp add: getShard_def wf_cache_def)
qed

lemma getShard_bound: "getShard c key = Inr i \<Longrightarrow> i < length (shards c)"
  by (auto simp: getShard_def Let_def split: if_splits)

lemma getShard_index_only:
  "numShards c' = numShards c \<Longrightarrow> length (shards c') = length (shards c) \<Longrightarrow> getShard c' key = getShard c key"
  by (simp add: getShard_def Let_def)

lemma wf_New: "wf_cache (NewKVCacheWithCapacity d m)"
  by (simp add: wf_cache_def NewKVCacheWithCapacity_def)

lemma evict_key_frame:
  "numShards (evict_key c i k) = numShards c"
  "length (shards (evict_key c i k)) = length (shards c)"
  "hits (evict_key c i k) = hits c"
  "misses (evict_key c i k) = misses c"
  "ttl (evict_key c i k) = ttl c"
  "maxCapacity (evict_key c i k) = maxCapacity c"
  by (simp_all add: evict_key_def Let_def split: option.splits)

lemma Set_frame:
  assumes "Set c now0 now1 now2 kvs key val ttls = Inr c'"
  shows "numShards c' = numShards c" "length (shards c') = length (shards c)"
    "hits c' = hits c" "misses c' = misses c" "ttl c' = ttl c" "maxCapacity c' = maxCapacity c"
  using assms
  by (auto simp: Set_def Let_def evictOldest_def evict_key_frame split: sum.splits option.splits if_splits prod.splits)

lemma Delete_frame:
  assumes "Delete c key = Inr c'"
  shows "numShards c' = numShards c" "length (shards c') = length (shards c)"
    "hits c' = hits c" "misses c' = misses c" "evictions c' = evictions c" "ttl c' = ttl c" "maxCapacity c' = maxCapacity c"
  using assms
  by (auto simp: Delete_def Let_def split: sum.splits option.splits if_splits)

section \<open>Metrics accounting\<close>

lemma Clear_shard_counters:
  "hits (Clear_shard c i kvs) = hits c" "misses (Clear_shard c i kvs) = misses c"
  "evictions (Clear_shard c i kvs) = evictions c" "length (shards (Clear_shard c i kvs)) = length (shards c)"
  "numShards (Clear_shard c i kvs) = numShards c"
  by (simp_all add: Clear_shard_def split: prod.splits)

lemma fold_Clear_shard_counters:
  "hits (fold (\<lambda>i c1. Clear_shard c1 i (kvss i)) is c) = hits c \<and>
   misses (fold (\<lambda>i c1. Clear_shard c1 i (kvss i)) is c) = misses c \<and>
   evictions (fold (\<lambda>i c1. Clear_shard c1 i (kvss i)) is c) = evictions c \<and>
   length (shards (fold (\<lambda>i c1. Clear_shard c1 i (kvss i)) is c)) = length (shards c) \<and>
   numShards (fold (\<lambda>i c1. Clear_shard c1 i (kvss i)) is c) = numShards c"
  by (induction "is" arbitrary: c) (simp_all add: Clear_shard_counters)

lemma Clear_counters:
  "hits (Clear c kvss) = hits c" "misses (Clear c kvss) = misses c"
  "evictions (Clear c kvss) = evictions c" "length (shards (Clear c kvss)) = length (shards c)"
  "numShards (Clear c kvss) = numShards c"
  by (simp_all add: Clear_def fold_Clear_shard_counters)

lemma Get_total:
  assumes "wf_cache c"
  shows "\<exists>r c'. Get c now freshNow key = Inr (r, c')"
  using getShard_wf(1)[OF assms, of key]
  by (auto simp: Get_def Let_def split: option.splits)

lemma Set_total:
  assumes "wf_cache c"
  shows "\<exists>c'. Set c now0 now1 now2 kvs key val ttls = Inr c'"
  using getShard_wf(1)[OF assms, of key]
  by (auto simp: Set_def Let_def split: option.splits prod.splits)

lemma Delete_total:
  assumes "wf_cache c"
  shows "\<exists>c'. Delete c key = Inr c'"
  using getShard_wf(1)[OF assms, of key]
  by (auto simp: Delete_def Let_def split: option.splits)

lemma Get_counters:
  assumes "Get c now freshNow key = Inr ((v, found), c')"
  shows "if found then hits c' = hits c + 1 \<and> misses c' = misses c
         else misses c' = misses c + 1 \<and> hits c' = hits c"
  using assms
  by (auto simp: Get_def Let_def split: sum.splits option.splits if_splits)

text \<open>
  Claim C10. On a well-formed cache, every \<^verbatim>\<open>Get\<close> returns and adds one to exactly one
  of \<open>hits\<close> and \<open>misses\<close> (to \<open>hits\<close> iff it returns found, in \<^verbatim>\<open>uint64\<close>
  arithmetic), leaving the other as it was; \<^verbatim>\<open>Set\<close> and \<^verbatim>\<open>Delete\<close> leave
  \<open>hits\<close> and \<open>misses\<close> as they were; \<^verbatim>\<open>Clear\<close> leaves \<open>hits\<close>, \<open>misses\<close>
  and \<open>evictions\<close> as they were.
\<close>

theorem metrics_accounting:
  assumes "wf_cache c"
  shows "(\<exists>v found c'. Get c now freshNow key = Inr ((v, found), c') \<and>
            (if found then hits c' = hits c + 1 \<and> misses c' = misses c
             else misses c' = misses c + 1 \<and> hits c' = hits c)) \<and>
         (\<exists>c'. Set c now0 now1 now2 kvs key val ttls = Inr c' \<and>
            hits c' = hits c \<and> misses c' = misses c) \<and>
         (\<exists>c'. Delete c key = Inr c' \<and> hits c' = hits c \<and> misses c' = misses c) \<and>
         hits (Clear c kvss) = hits c \<and> misses (Clear c kvss) = misses c \<and>
         evictions (Clear c kvss) = evictions c"
proof -
  obtain v found c1 where g: "Get c now freshNow key = Inr ((v, found), c1)"
    using Get_total[OF assms, of now freshNow key] by auto
  obtain c2 where s: "Set c now0 now1 now2 kvs key val ttls = Inr c2"
    using Set_total[OF assms] by blast
  obtain c3 where d: "Delete c key = Inr c3"
    using Delete_total[OF assms] by blast
  show ?thesis
    using g s d Get_counters[OF g] Set_frame(3,4)[OF s] Delete_frame(3,4)[OF d]
    by (simp add: Clear_counters)
qed

theorem metrics_accounting_witness:
  "wf_cache (NewKVCacheWithCapacity 300000000000 0 :: nat KVCache) \<and>
   (\<exists>v found c'. Get (NewKVCacheWithCapacity 300000000000 0 :: nat KVCache) 1000 1001 ''key1''
        = Inr ((v, found), c') \<and>
      (if found then hits c' = hits (NewKVCacheWithCapacity 300000000000 0 :: nat KVCache) + 1
       else misses c' = misses (NewKVCacheWithCapacity 300000000000 0 :: nat KVCache) + 1))"
proof -
  have w: "wf_cache (NewKVCacheWithCapacity 300000000000 0 :: nat KVCache)"
    by (rule wf_New)
  from metrics_accounting[OF w, of 1000 1001 "''key1''"]
  obtain v found c' where
    "Get (NewKVCacheWithCapacity 300000000000 0 :: nat KVCache) 1000 1001 ''key1'' = Inr ((v, found), c')"
    "if found then hits c' = hits (NewKVCacheWithCapacity 300000000000 0 :: nat KVCache) + 1 \<and>
        misses c' = misses (NewKVCacheWithCapacity 300000000000 0 :: nat KVCache)
     else misses c' = misses (NewKVCacheWithCapacity 300000000000 0 :: nat KVCache) + 1 \<and>
        hits c' = hits (NewKVCacheWithCapacity 300000000000 0 :: nat KVCache)"
    by blast
  then have "\<exists>v found c'. Get (NewKVCacheWithCapacity 300000000000 0 :: nat KVCache) 1000 1001 ''key1''
        = Inr ((v, found), c') \<and>
      (if found then hits c' = hits (NewKVCacheWithCapacity 300000000000 0 :: nat KVCache) + 1
       else misses c' = misses (NewKVCacheWithCapacity 300000000000 0 :: nat KVCache) + 1)"
    by (intro exI[of _ v] exI[of _ found] exI[of _ c']) (simp split: if_splits)
  with w show ?thesis by blast
qed

section \<open>What Set, Get and Delete do to the shard of the key\<close>

lemma entry_overwrite:
  "(e :: 'v CacheEntry)\<lparr>Value := a, Expiration := b, lastAccess := t\<rparr>
     = \<lparr>Value = a, Expiration = b, lastAccess = t\<rparr>"
  by (cases e) simp

lemma Set_expiration:
  "(if length ttls > 0 \<and> 0 <s ttls ! 0 then deadline now1 (ttls ! 0) else deadline now0 d)
     = spec_deadline d now0 now1 (override ttls)"
  by (cases ttls) (simp_all add: spec_deadline_def override_def deadline_def)

lemma lookup_wf:
  "wf_cache c \<Longrightarrow> lookup c key = store (shards c ! unat (fnv32a_Sum32 key mod 256)) key"
  by (simp add: lookup_def getShard_wf(1))

lemma lookup_New: "lookup (NewKVCacheWithCapacity d m) key = None"
proof -
  have "unat (fnv32a_Sum32 key mod 256) < 256"
    using getShard_wf(2)[OF wf_New, of key d m] by (simp add: NewKVCacheWithCapacity_def)
  then show ?thesis
    by (simp add: lookup_wf[OF wf_New]) (simp add: NewKVCacheWithCapacity_def)
qed

lemma Set_unfold:
  assumes "getShard c key = Inr i"
  shows "Set c now0 now1 now2 kvs key val ttls =
     Inr (let c1 = (if 0 < maxCapacity c \<and> maxCapacity c \<le> size_n (shards c ! i) \<and>
                       store (shards c ! i) key = None
                    then evictOldest c i kvs else c);
              s = shards c1 ! i
          in c1\<lparr>shards := (shards c1)[i :=
                   s\<lparr>size_n := (if store s key = None then size_n s + 1 else size_n s),
                     store := (store s)(key \<mapsto>
                       \<lparr>Value = val,
                        Expiration = spec_deadline (ttl c) now0 now1 (override ttls),
                        lastAccess = now2\<rparr>)\<rparr>],
                 entryPool := (if store s key = None then snd (entryPool_Get (entryPool c1))
                               else entryPool c1)\<rparr>)"
  unfolding Set_def Let_def Set_expiration
  using assms
  by (auto simp: entry_overwrite split: option.splits prod.splits)

lemma Set_stores:
  assumes "getShard c key = Inr i"
  shows "\<exists>c'. Set c now0 now1 now2 kvs key val ttls = Inr c' \<and>
           store (shards c' ! i) key
             = Some \<lparr>Value = val, Expiration = spec_deadline (ttl c) now0 now1 (override ttls),
                     lastAccess = now2\<rparr>"
proof -
  have i: "i < length (shards c)" using assms by (rule getShard_bound)
  show ?thesis
    using i by (simp add: Set_unfold[OF assms] Let_def evictOldest_def evict_key_frame)
qed

lemma Get_unfold:
  assumes "getShard c key = Inr i"
  shows "Get c now freshNow key =
     Inr (case store (shards c ! i) key of
            None \<Rightarrow> ((None, False), c\<lparr>misses := misses c + 1\<rparr>)
          | Some e \<Rightarrow>
              if expired now e then
                ((None, False),
                 (if expired freshNow e
                  then c\<lparr>shards := (shards c)[i := (shards c ! i)
                             \<lparr>store := (store (shards c ! i))(key := None),
                              size_n := size_n (shards c ! i) - 1\<rparr>],
                         entryPool := e # entryPool c\<rparr>
                  else c)\<lparr>misses := misses c + 1\<rparr>)
              else
                ((Value e, True),
                 c\<lparr>shards := (shards c)[i := (shards c ! i)
                        \<lparr>store := (store (shards c ! i))(key \<mapsto> e\<lparr>lastAccess := now\<rparr>)\<rparr>],
                   hits := hits c + 1\<rparr>))"
  using assms
  by (simp add: Get_def Let_def expired_def entryPool_Put_def split: option.splits)

lemma Delete_unfold:
  assumes "getShard c key = Inr i"
  shows "Delete c key =
     Inr (case store (shards c ! i) key of
            None \<Rightarrow> c
          | Some e \<Rightarrow>
              c\<lparr>shards := (shards c)[i := (shards c ! i)
                     \<lparr>store := (store (shards c ! i))(key := None),
                      size_n := size_n (shards c ! i) - 1\<rparr>],
                entryPool := e # entryPool c\<rparr>)"
  using assms
  by (simp add: Delete_def Let_def entryPool_Put_def split: option.splits)

lemma Set_wf:
  assumes "wf_cache c" and "Set c now0 now1 now2 kvs key val ttls = Inr c'"
  shows "wf_cache c'"
  using assms Set_frame(1,2)[OF assms(2)] by (simp add: wf_cache_def)

lemma Set_lookup:
  assumes "wf_cache c"
  shows "\<exists>c'. Set c now0 now1 now2 kvs key val ttls = Inr c' \<and> wf_cache c' \<and>
           lookup c' key
             = Some \<lparr>Value = val, Expiration = spec_deadline (ttl c) now0 now1 (override ttls),
                     lastAccess = now2\<rparr>"
proof -
  let ?i = "unat (fnv32a_Sum32 key mod 256)"
  have g: "getShard c key = Inr ?i" by (rule getShard_wf(1)[OF assms])
  from Set_stores[OF g, of now0 now1 now2 kvs val ttls]
  obtain c' where s: "Set c now0 now1 now2 kvs key val ttls = Inr c'"
    and e: "store (shards c' ! ?i) key
             = Some \<lparr>Value = val, Expiration = spec_deadline (ttl c) now0 now1 (override ttls),
                     lastAccess = now2\<rparr>"
    by blast
  have w: "wf_cache c'" by (rule Set_wf[OF assms s])
  show ?thesis using s w e by (simp add: lookup_wf[OF w])
qed

lemma Get_present:
  assumes "wf_cache c" and "lookup c key = Some e"
  shows "\<exists>c'. Get c now freshNow key
            = Inr (if expired now e then (None, False) else (Value e, True), c')"
proof -
  let ?i = "unat (fnv32a_Sum32 key mod 256)"
  have g: "getShard c key = Inr ?i" by (rule getShard_wf(1)[OF assms(1)])
  have "store (shards c ! ?i) key = Some e"
    using assms(2) by (simp add: lookup_wf[OF assms(1)])
  then show ?thesis by (simp add: Get_unfold[OF g])
qed

lemma Set_then_Get_eq:
  assumes "wf_cache c"
  shows "Set_then_Get c now0 now1 now2 kvs key val ttls now freshNow =
           Inr (if 0 <s spec_deadline (ttl c) now0 now1 (override ttls) \<and>
                   spec_deadline (ttl c) now0 now1 (override ttls) <s now
                then (None, False) else (val, True))"
proof -
  from Set_lookup[OF assms, of now0 now1 now2 kvs key val ttls]
  obtain c' where s: "Set c now0 now1 now2 kvs key val ttls = Inr c'" and w: "wf_cache c'"
    and e: "lookup c' key
             = Some \<lparr>Value = val, Expiration = spec_deadline (ttl c) now0 now1 (override ttls),
                     lastAccess = now2\<rparr>"
    by blast
  from Get_present[OF w e, of now freshNow]
  show ?thesis using s by (auto simp: Set_then_Get_def expired_def)
qed

lemma sint_add_nowrap:
  fixes a b :: int64
  assumes "- (2 ^ 63) \<le> sint a + sint b" and "sint a + sint b < 2 ^ 63"
  shows "sint (a + b) = sint a + sint b"
  using assms by (simp add: sint_word_ariths signed_take_bit_int_eq_self)

lemma deadline_not_after:
  fixes now d :: int64
  assumes "0 \<le>s now" and "d \<le>s 0"
  shows "now + d \<le>s now"
proof -
  have a: "0 \<le> sint now" and b: "sint d \<le> 0"
    using assms by (simp_all add: word_sle_eq)
  have "- (2 ^ 63) \<le> sint d" using sint_ge[of d] by simp
  moreover have "sint now < 2 ^ 63" using sint_lt[of now] by simp
  ultimately have "sint (now + d) = sint now + sint d"
    using a b by (intro sint_add_nowrap) auto
  then show ?thesis using b by (simp add: word_sle_eq)
qed

section \<open>Round trip and TTL\<close>

text \<open>
  Claim C1, as amended. On a well-formed cache, \<^verbatim>\<open>Set(k, v)\<close> followed by
  \<^verbatim>\<open>Get(k)\<close> returns \<open>(v, true)\<close> unless the deadline the \<^verbatim>\<open>Set\<close> stored (its
  clock reading plus the positive override, else plus the default TTL, in
  \<^verbatim>\<open>int64\<close> arithmetic) is strictly positive and strictly before the clock reading
  of the \<^verbatim>\<open>Get\<close>; in that case \<^verbatim>\<open>Get\<close> returns \<open>(nil, false)\<close>.
\<close>

theorem Set_Get_roundtrip:
  assumes "wf_cache c"
  shows "Set_then_Get c now0 now1 now2 kvs key val ttls now freshNow =
           Inr (if 0 <s spec_deadline (ttl c) now0 now1 (override ttls) \<and>
                   spec_deadline (ttl c) now0 now1 (override ttls) <s now
                then (None, False) else (val, True))"
  using assms by (rule Set_then_Get_eq)

theorem Set_Get_roundtrip_witness:
  "wf_cache (NewKVCache 300000000000 :: nat KVCache) \<and>
   Set_then_Get (NewKVCache 300000000000 :: nat KVCache)
      1700000000000000000 1700000000000000000 1700000000000000050 [] ''key1'' (Some 7) []
      1700000000000000100 1700000000000000100 = Inr (Some 7, True)"
proof -
  have w: "wf_cache (NewKVCache 300000000000 :: nat KVCache)"
    by (simp add: NewKVCache_def wf_New)
  have "Set_then_Get (NewKVCache 300000000000 :: nat KVCache)
      1700000000000000000 1700000000000000000 1700000000000000050 [] ''key1'' (Some 7) []
      1700000000000000100 1700000000000000100 = Inr (Some 7, True)"
    by (simp add: Set_Get_roundtrip[OF w])
       (simp add: NewKVCache_def NewKVCacheWithCapacity_def spec_deadline_def override_def
          word_sless_alt)
  with w show ?thesis by simp
qed

text \<open>
  The claim as stated (for any default TTL) fails for a cache built with the default
  TTL \<open>-1\<close>: the entry is stored with a deadline one nanosecond before the clock
  reading, and a \<^verbatim>\<open>Get\<close> at that same clock reading reports it expired. It also
  fails for the default TTL \<open>0\<close> as soon as the clock has advanced by one nanosecond
  between the \<^verbatim>\<open>Set\<close> and the \<^verbatim>\<open>Get\<close>.
\<close>

theorem Set_Get_roundtrip_counterexample:
  "Set_then_Get (NewKVCache (- 1) :: nat KVCache)
      1700000000000000000 1700000000000000000 1700000000000000000 [] ''key1'' (Some 7) []
      1700000000000000000 1700000000000000000 = Inr (None, False) \<and>
   Set_then_Get (NewKVCache 0 :: nat KVCache)
      1700000000000000000 1700000000000000000 1700000000000000000 [] ''key1'' (Some 7) []
      1700000000000000001 1700000000000000001 = Inr (None, False)"
  by (simp add: Set_then_Get_eq NewKVCache_def wf_New)
     (simp add: NewKVCacheWithCapacity_def spec_deadline_def override_def word_sless_alt)

text \<open>
  The deadline \<^verbatim>\<open>Set\<close> stores is the integer sum reduced to an \<^verbatim>\<open>int64\<close>: the sum
  itself when it lies between \<open>-2^63\<close> and \<open>2^63 - 1\<close>, and the sum wrapped around
  otherwise.
\<close>

lemma Set_lookup_projr:
  assumes "wf_cache c"
  shows "lookup (projr (Set c now0 now1 now2 kvs key val ttls)) key
           = Some \<lparr>Value = val, Expiration = spec_deadline (ttl c) now0 now1 (override ttls),
                   lastAccess = now2\<rparr>"
  using Set_lookup[OF assms, of now0 now1 now2 kvs key val ttls] by auto

lemma spec_deadline_wraps:
  "spec_deadline dflt now0 now1 ovr
     = word_of_int (math_deadline (sint dflt) (sint now0) (sint now1) (map_option sint ovr))"
  by (cases ovr) (simp_all add: spec_deadline_def math_deadline_def word_sless_alt)

lemma sint_int64_in_range:
  fixes m :: int
  assumes "- (2 ^ 63) \<le> m" and "m < 2 ^ 63"
  shows "sint (word_of_int m :: int64) = m"
  using assms by (simp add: sint_sbintrunc' signed_take_bit_int_eq_self)

text \<open>
  Claim C5, as amended. On a well-formed cache \<^verbatim>\<open>Set\<close> returns and stores under the
  key an entry whose deadline is the clock reading plus the override when an override is
  given and strictly positive, and the clock reading plus the default TTL otherwise,
  reduced to an \<^verbatim>\<open>int64\<close>: the stored deadline is that sum whenever the sum fits in
  an \<^verbatim>\<open>int64\<close>, and the sum wrapped around modulo \<open>2^64\<close> when it does not. A call
  with an override that is not positive is the same as the call with no override.
\<close>

theorem ttl_normalization:
  assumes "wf_cache c"
  shows "(\<exists>c' e. Set c now0 now1 now2 kvs key val ttls = Inr c' \<and> lookup c' key = Some e \<and>
            Expiration e
              = word_of_int (math_deadline (sint (ttl c)) (sint now0) (sint now1)
                               (map_option sint (override ttls))) \<and>
            (- (2 ^ 63) \<le> math_deadline (sint (ttl c)) (sint now0) (sint now1)
                               (map_option sint (override ttls)) \<and>
             math_deadline (sint (ttl c)) (sint now0) (sint now1)
                               (map_option sint (override ttls)) < 2 ^ 63 \<longrightarrow>
             sint (Expiration e)
               = math_deadline (sint (ttl c)) (sint now0) (sint now1)
                   (map_option sint (override ttls)))) \<and>
         (\<not> 0 <s d \<longrightarrow>
            Set c now0 now1 now2 kvs key val (d # ds) = Set c now0 now1 now2 kvs key val [])"
proof -
  let ?M = "math_deadline (sint (ttl c)) (sint now0) (sint now1) (map_option sint (override ttls))"
  have g: "getShard c key = Inr (unat (fnv32a_Sum32 key mod 256))"
    by (rule getShard_wf(1)[OF assms])
  have 2: "Set c now0 now1 now2 kvs key val (d # ds) = Set c now0 now1 now2 kvs key val []"
    if n: "\<not> 0 <s d"
  proof -
    have "spec_deadline (ttl c) now0 now1 (override (d # ds))
        = spec_deadline (ttl c) now0 now1 (override [])"
      using n by (simp add: spec_deadline_def override_def)
    then show ?thesis by (simp only: Set_unfold[OF g])
  qed
  from Set_lookup[OF assms, of now0 now1 now2 kvs key val ttls]
  obtain c' where s: "Set c now0 now1 now2 kvs key val ttls = Inr c'"
    and l: "lookup c' key = Some \<lparr>Value = val,
              Expiration = spec_deadline (ttl c) now0 now1 (override ttls), lastAccess = now2\<rparr>"
    by blast
  let ?e = "\<lparr>Value = val, Expiration = spec_deadline (ttl c) now0 now1 (override ttls),
             lastAccess = now2\<rparr>"
  have e1: "Expiration ?e = word_of_int ?M" by (simp add: spec_deadline_wraps)
  have e2: "sint (Expiration ?e) = ?M" if "- (2 ^ 63) \<le> ?M \<and> ?M < 2 ^ 63"
    using that unfolding e1 by (simp add: sint_int64_in_range)
  from s l e1 e2 have "\<exists>c' e. Set c now0 now1 now2 kvs key val ttls = Inr c' \<and> lookup c' key = Some e \<and>
            Expiration e = word_of_int ?M \<and>
            (- (2 ^ 63) \<le> ?M \<and> ?M < 2 ^ 63 \<longrightarrow> sint (Expiration e) = ?M)"
    by blast
  with 2 show ?thesis by blast
qed

theorem ttl_normalization_witness:
  "wf_cache (NewKVCache 300000000000 :: nat KVCache) \<and>
   (\<exists>c' e. Set (NewKVCache 300000000000 :: nat KVCache) 1000 2000 3000 [] ''key2'' (Some 7) [10000000000]
        = Inr c' \<and> lookup c' ''key2'' = Some e \<and> sint (Expiration e) = 10000002000) \<and>
   (\<exists>c' e. Set (NewKVCache 300000000000 :: nat KVCache) 1000 2000 3000 [] ''key2'' (Some 7) []
        = Inr c' \<and> lookup c' ''key2'' = Some e \<and> sint (Expiration e) = 300000001000) \<and>
   \<not> 0 <s (- 4 :: int64) \<and>
   Set (NewKVCache 300000000000 :: nat KVCache) 1000 2000 3000 [] ''key2'' (Some 7) [- 4]
     = Set (NewKVCache 300000000000 :: nat KVCache) 1000 2000 3000 [] ''key2'' (Some 7) []"
proof -
  let ?c = "NewKVCache 300000000000 :: nat KVCache"
  have w: "wf_cache ?c"
    by (simp add: NewKVCache_def wf_New)
  have n: "\<not> 0 <s (- 4 :: int64)" by (simp add: word_sless_alt)
  have d1: "math_deadline (sint (ttl ?c)) (sint (1000 :: int64)) (sint (2000 :: int64))
      (map_option sint (override [10000000000 :: int64])) = 10000002000"
    by (simp add: math_deadline_def override_def NewKVCache_def NewKVCacheWithCapacity_def)
  have d0: "math_deadline (sint (ttl ?c)) (sint (1000 :: int64)) (sint (2000 :: int64))
      (map_option sint (override ([] :: int64 list))) = 300000001000"
    by (simp add: math_deadline_def override_def NewKVCache_def NewKVCacheWithCapacity_def)
  from ttl_normalization[OF w, of 1000 2000 3000 "[]" "''key2''" "Some 7" "[10000000000]" "- 4" "[]"]
  have a: "\<exists>c' e. Set ?c 1000 2000 3000 [] ''key2'' (Some 7) [10000000000]
        = Inr c' \<and> lookup c' ''key2'' = Some e \<and> sint (Expiration e) = 10000002000"
    and b: "Set ?c 1000 2000 3000 [] ''key2'' (Some 7) [- 4] = Set ?c 1000 2000 3000 [] ''key2'' (Some 7) []"
    unfolding d1 using n by auto
  from ttl_normalization[OF w, of 1000 2000 3000 "[]" "''key2''" "Some 7" "[]" "- 4" "[]"]
  have c: "\<exists>c' e. Set ?c 1000 2000 3000 [] ''key2'' (Some 7) []
        = Inr c' \<and> lookup c' ''key2'' = Some e \<and> sint (Expiration e) = 300000001000"
    unfolding d0 by auto
  from w a b c n show ?thesis by blast
qed

text \<open>
  The claim as stated (the stored deadline equals now + override, for every override)
  fails when the sum does not fit in an \<^verbatim>\<open>int64\<close>: at the clock reading
  \<open>1700000000000000000\<close> a \<^verbatim>\<open>Set\<close> with the positive override
  \<open>9223372036854775807\<close> (\<^verbatim>\<open>math.MaxInt64\<close>) stores the negative deadline
  \<open>-7523372036854775809\<close>, while now + override is \<open>10923372036854775807\<close>. The
  same deadline is stored with no override on a cache whose default TTL is
  \<^verbatim>\<open>math.MaxInt64\<close>.
\<close>

theorem ttl_normalization_counterexample:
  "lookup (projr (Set (NewKVCache 300000000000 :: nat KVCache)
        1700000000000000000 1700000000000000000 1700000000000000000 [] ''key1'' (Some 7)
        [9223372036854775807])) ''key1''
     = Some \<lparr>Value = Some 7, Expiration = - 7523372036854775809,
             lastAccess = 1700000000000000000\<rparr> \<and>
   0 <s (9223372036854775807 :: int64) \<and>
   sint (- 7523372036854775809 :: int64) = - 7523372036854775809 \<and>
   sint (1700000000000000000 :: int64) + sint (9223372036854775807 :: int64)
     = 10923372036854775807 \<and>
   lookup (projr (Set (NewKVCache 9223372036854775807 :: nat KVCache)
        1700000000000000000 1700000000000000000 1700000000000000000 [] ''key1'' (Some 7)
        [])) ''key1''
     = Some \<lparr>Value = Some 7, Expiration = - 7523372036854775809,
             lastAccess = 1700000000000000000\<rparr>"
  by (simp add: Set_lookup_projr NewKVCache_def wf_New)
     (simp add: NewKVCacheWithCapacity_def spec_deadline_def override_def word_sless_alt)

text \<open>
  Claim C9, as amended. \<^verbatim>\<open>Set\<close> stores the clock reading plus a duration. When the
  default TTL is not positive, no positive override is given and the clock reading is not
  negative, the stored deadline is the clock reading plus the default TTL and is not
  after the clock reading; a strictly later \<^verbatim>\<open>Get\<close> reports the entry expired when
  that deadline is strictly positive, and returns it as found when the deadline is zero
  or negative: such an entry never expires.
\<close>

theorem nonpositive_ttl_deadline:
  assumes "wf_cache c" and "ttl c \<le>s 0" and "\<forall>d. override ttls = Some d \<longrightarrow> d \<le>s 0"
    and "0 \<le>s now0"
  shows "(\<exists>c1 e. Set c now0 now1 now2 kvs key val ttls = Inr c1 \<and> lookup c1 key = Some e \<and>
            Expiration e = now0 + ttl c \<and> Expiration e \<le>s now0) \<and>
         (now0 <s now \<longrightarrow>
            Set_then_Get c now0 now1 now2 kvs key val ttls now freshNow =
              Inr (if 0 <s now0 + ttl c then (None, False) else (val, True)))"
proof -
  have d: "spec_deadline (ttl c) now0 now1 (override ttls) = now0 + ttl c"
    using assms(3) by (auto simp: spec_deadline_def word_sless_alt word_sle_eq split: option.splits)
  have le: "now0 + ttl c \<le>s now0" by (rule deadline_not_after[OF assms(4,2)])
  from Set_lookup[OF assms(1), of now0 now1 now2 kvs key val ttls]
  have 1: "\<exists>c1 e. Set c now0 now1 now2 kvs key val ttls = Inr c1 \<and> lookup c1 key = Some e \<and>
            Expiration e = now0 + ttl c \<and> Expiration e \<le>s now0"
    using le unfolding d by auto
  have 2: "Set_then_Get c now0 now1 now2 kvs key val ttls now freshNow =
              Inr (if 0 <s now0 + ttl c then (None, False) else (val, True))" if "now0 <s now"
  proof -
    have "now0 + ttl c <s now"
      using le that by (simp add: word_sless_alt word_sle_eq)
    then show ?thesis by (simp add: Set_then_Get_eq[OF assms(1)] d)
  qed
  from 1 2 show ?thesis by blast
qed

theorem nonpositive_ttl_deadline_witness:
  "wf_cache (NewKVCache 0 :: nat KVCache) \<and> ttl (NewKVCache 0 :: nat KVCache) \<le>s 0 \<and>
   override [- 4 :: int64] = Some (- 4) \<and> (- 4 :: int64) \<le>s 0 \<and>
   (0 :: int64) \<le>s 1700000000000000000 \<and>
   (1700000000000000000 :: int64) <s 1700000000000000001 \<and>
   Set_then_Get (NewKVCache 0 :: nat KVCache)
      1700000000000000000 1700000000000000000 1700000000000000000 [] ''key1'' (Some 7) [- 4]
      1700000000000000001 1700000000000000001 = Inr (None, False)"
proof -
  have w: "wf_cache (NewKVCache 0 :: nat KVCache)"
    by (simp add: NewKVCache_def wf_New)
  have t: "ttl (NewKVCache 0 :: nat KVCache) \<le>s 0"
    by (simp add: NewKVCache_def NewKVCacheWithCapacity_def)
  have o: "\<forall>d. override [- 4 :: int64] = Some d \<longrightarrow> d \<le>s 0"
    by (simp add: override_def word_sle_eq)
  have n: "(0 :: int64) \<le>s 1700000000000000000" by (simp add: word_sle_eq)
  have l: "(1700000000000000000 :: int64) <s 1700000000000000001" by (simp add: word_sless_alt)
  have p: "0 <s 1700000000000000000 + ttl (NewKVCache 0 :: nat KVCache)"
    by (simp add: NewKVCache_def NewKVCacheWithCapacity_def word_sless_alt)
  from nonpositive_ttl_deadline[OF w t o n, of 1700000000000000000 1700000000000000000 "[]"
      "''key1''" "Some 7" 1700000000000000001 1700000000000000001] l p
  have "Set_then_Get (NewKVCache 0 :: nat KVCache)
      1700000000000000000 1700000000000000000 1700000000000000000 [] ''key1'' (Some 7) [- 4]
      1700000000000000001 1700000000000000001 = Inr (None, False)"
    by simp
  with w t n l show ?thesis by (simp add: override_def word_sle_eq)
qed

text \<open>
  The claim as stated fails for a cache built with the default TTL
  \<^verbatim>\<open>math.MinInt64\<close>: the deadline stored at a present-day clock reading is negative,
  and a strictly later \<^verbatim>\<open>Get\<close> returns the entry as found.
\<close>

theorem nonpositive_ttl_deadline_counterexample:
  "ttl (NewKVCache (- 9223372036854775808) :: nat KVCache) \<le>s 0 \<and>
   (1700000000000000000 :: int64) <s 1700000000000000001 \<and>
   Set_then_Get (NewKVCache (- 9223372036854775808) :: nat KVCache)
      1700000000000000000 1700000000000000000 1700000000000000000 [] ''key1'' (Some 7) []
      1700000000000000001 1700000000000000001 = Inr (Some 7, True)"
  by (simp add: Set_then_Get_eq NewKVCache_def wf_New)
     (simp add: NewKVCacheWithCapacity_def spec_deadline_def override_def word_sless_alt word_sle_eq)

section \<open>Miss on an absent key\<close>

text \<open>
  Claim C7. On a well-formed cache, for a key that is not in the map of its shard,
  \<^verbatim>\<open>Get\<close> returns \<open>(nil, false)\<close> without a panic (changing nothing but the miss
  counter), and \<^verbatim>\<open>Delete\<close> returns without a panic and leaves the whole cache as
  it was.
\<close>

theorem idempotent_miss:
  assumes "wf_cache c" and "lookup c key = None"
  shows "Get c now freshNow key = Inr ((None, False), c\<lparr>misses := misses c + 1\<rparr>) \<and>
         Delete c key = Inr c"
proof -
  have g: "getShard c key = Inr (unat (fnv32a_Sum32 key mod 256))"
    by (rule getShard_wf(1)[OF assms(1)])
  have "store (shards c ! unat (fnv32a_Sum32 key mod 256)) key = None"
    using assms(2) by (simp add: lookup_wf[OF assms(1)])
  then show ?thesis by (simp add: Get_unfold[OF g] Delete_unfold[OF g])
qed

theorem idempotent_miss_witness:
  "wf_cache (NewKVCache 300000000000 :: nat KVCache) \<and>
   lookup (NewKVCache 300000000000 :: nat KVCache) ''nonexistent'' = None \<and>
   Get (NewKVCache 300000000000 :: nat KVCache) 1000 1000 ''nonexistent''
     = Inr ((None, False), (NewKVCache 300000000000)\<lparr>misses := 1\<rparr>) \<and>
   Delete (NewKVCache 300000000000 :: nat KVCache) ''nonexistent'' = Inr (NewKVCache 300000000000)"
proof -
  have w: "wf_cache (NewKVCache 300000000000 :: nat KVCache)"
    by (simp add: NewKVCache_def wf_New)
  have l: "lookup (NewKVCache 300000000000 :: nat KVCache) ''nonexistent'' = None"
    by (simp add: NewKVCache_def lookup_New)
  have m: "misses (NewKVCache 300000000000 :: nat KVCache) + 1 = 1"
    by (simp add: NewKVCache_def NewKVCacheWithCapacity_def)
  from idempotent_miss[OF w l, of 1000 1000] w l show ?thesis
    unfolding m by blast
qed

section \<open>Preservation of the live-count invariant\<close>

lemma shard_inv_delete:
  assumes "shard_inv s" and "store s key = Some e"
  shows "shard_inv (s\<lparr>store := (store s)(key := None), size_n := size_n s - 1\<rparr>)"
proof -
  have f: "finite (dom (store s))" and n: "size_n s = int (card (dom (store s)))"
    using assms(1) by (simp_all add: shard_inv_def)
  have k: "key \<in> dom (store s)" using assms(2) by auto
  then have "card (dom (store s)) > 0" using f by (auto simp: card_gt_0_iff)
  moreover have "card (dom (store s) - {key}) = card (dom (store s)) - 1"
    using k f by simp
  ultimately show ?thesis using f n by (simp add: shard_inv_def)
qed

lemma shard_inv_insert:
  assumes "shard_inv s" and "store s key = None"
  shows "shard_inv (s\<lparr>size_n := size_n s + 1, store := (store s)(key \<mapsto> e)\<rparr>)"
proof -
  have f: "finite (dom (store s))" and n: "size_n s = int (card (dom (store s)))"
    using assms(1) by (simp_all add: shard_inv_def)
  have "key \<notin> dom (store s)" using assms(2) by auto
  then show ?thesis using f n by (simp add: shard_inv_def)
qed

lemma shard_inv_update:
  assumes "shard_inv s" and "store s key = Some e"
  shows "shard_inv (s\<lparr>store := (store s)(key \<mapsto> e')\<rparr>)"
proof -
  have "insert key (dom (store s)) = dom (store s)" using assms(2) by auto
  then show ?thesis using assms(1) by (simp add: shard_inv_def)
qed

lemma cache_inv_nth: "cache_inv c \<Longrightarrow> i < length (shards c) \<Longrightarrow> shard_inv (shards c ! i)"
  by (simp add: cache_inv_def)

lemma cache_inv_shards_update:
  assumes "cache_inv c" and "shard_inv s" and "shards c' = (shards c)[i := s]"
  shows "cache_inv c'"
  using assms set_update_subset_insert[of "shards c" i s]
  by (auto simp: cache_inv_def)

lemma cache_inv_New: "cache_inv (NewKVCacheWithCapacity d m)"
  by (simp add: cache_inv_def NewKVCacheWithCapacity_def shard_inv_def)

lemma evict_key_inv:
  assumes "cache_inv c" and "i < length (shards c)"
  shows "cache_inv (evict_key c i oldestKey)"
proof (cases "oldestKey \<noteq> '''' \<and> store (shards c ! i) oldestKey \<noteq> None")
  case True
  then obtain e where e: "store (shards c ! i) oldestKey = Some e" by auto
  have "shard_inv ((shards c ! i)\<lparr>store := (store (shards c ! i))(oldestKey := None),
                                  size_n := size_n (shards c ! i) - 1\<rparr>)"
    by (rule shard_inv_delete[OF cache_inv_nth[OF assms] e])
  then show ?thesis
    using True e by (intro cache_inv_shards_update[OF assms(1)]) (simp_all add: evict_key_def Let_def)
next
  case False
  then have "evict_key c i oldestKey = c"
    by (auto simp: evict_key_def)
  then show ?thesis using assms(1) by simp
qed

lemma Inr_getShard:
  "Set c now0 now1 now2 kvs key val ttls = Inr c' \<Longrightarrow> \<exists>i. getShard c key = Inr i"
  "Get c now freshNow key = Inr x \<Longrightarrow> \<exists>i. getShard c key = Inr i"
  "Delete c key = Inr c' \<Longrightarrow> \<exists>i. getShard c key = Inr i"
  by (cases "getShard c key"; simp add: Set_def Get_def Delete_def)+

lemma Set_inv:
  assumes "cache_inv c" and "Set c now0 now1 now2 kvs key val ttls = Inr c'"
  shows "cache_inv c'"
proof -
  obtain i where g: "getShard c key = Inr i"
    using Inr_getShard(1)[OF assms(2)] by blast
  have i: "i < length (shards c)" by (rule getShard_bound[OF g])
  define c1 where "c1 = (if 0 < maxCapacity c \<and> maxCapacity c \<le> size_n (shards c ! i) \<and>
                       store (shards c ! i) key = None
                    then evictOldest c i kvs else c)"
  have c1: "cache_inv c1" and i1: "i < length (shards c1)"
    using assms(1) i by (simp_all add: c1_def evictOldest_def evict_key_inv evict_key_frame)
  let ?s = "shards c1 ! i"
  let ?e = "\<lparr>Value = val, Expiration = spec_deadline (ttl c) now0 now1 (override ttls),
              lastAccess = now2\<rparr>"
  have s: "shard_inv ?s" by (rule cache_inv_nth[OF c1 i1])
  have "shard_inv (?s\<lparr>size_n := (if store ?s key = None then size_n ?s + 1 else size_n ?s),
                        store := (store ?s)(key \<mapsto> ?e)\<rparr>)"
  proof (cases "store ?s key")
    case None
    then show ?thesis using shard_inv_insert[OF s None, of ?e] by simp
  next
    case (Some e)
    then show ?thesis using shard_inv_update[OF s Some, of ?e] by simp
  qed
  moreover have "shards c' = (shards c1)[i := ?s\<lparr>size_n := (if store ?s key = None then size_n ?s + 1 else size_n ?s),
                        store := (store ?s)(key \<mapsto> ?e)\<rparr>]"
    using assms(2)[unfolded Set_unfold[OF g] sum.inject, symmetric]
    by (simp add: c1_def Let_def)
  ultimately show ?thesis by (rule cache_inv_shards_update[OF c1])
qed

lemma Get_shards:
  assumes "getShard c key = Inr i" and "Get c now freshNow key = Inr (r, c')"
  shows "shards c' =
     (case store (shards c ! i) key of
        None \<Rightarrow> shards c
      | Some e \<Rightarrow>
          if expired now e then
            (if expired freshNow e
             then (shards c)[i := (shards c ! i)
                    \<lparr>store := (store (shards c ! i))(key := None),
                     size_n := size_n (shards c ! i) - 1\<rparr>]
             else shards c)
          else (shards c)[i := (shards c ! i)
                 \<lparr>store := (store (shards c ! i))(key \<mapsto> e\<lparr>lastAccess := now\<rparr>)\<rparr>])"
  using assms(2) unfolding Get_unfold[OF assms(1)]
  by (auto split: option.splits if_splits)

lemma Get_inv:
  assumes "cache_inv c" and "Get c now freshNow key = Inr (r, c')"
  shows "cache_inv c'"
proof -
  obtain i where g: "getShard c key = Inr i"
    using Inr_getShard(2)[OF assms(2)] by blast
  have i: "i < length (shards c)" by (rule getShard_bound[OF g])
  have s: "shard_inv (shards c ! i)" by (rule cache_inv_nth[OF assms(1) i])
  note sh = Get_shards[OF g assms(2)]
  show ?thesis
  proof (cases "store (shards c ! i) key")
    case None
    then have "shards c' = shards c" using sh by simp
    then show ?thesis using assms(1) by (simp add: cache_inv_def)
  next
    case (Some e)
    consider (hit) "\<not> expired now e" | (stale) "expired now e" "\<not> expired freshNow e"
      | (gone) "expired now e" "expired freshNow e" by blast
    then show ?thesis
    proof cases
      case hit
      then have "shards c' = (shards c)[i := (shards c ! i)
                        \<lparr>store := (store (shards c ! i))(key \<mapsto> e\<lparr>lastAccess := now\<rparr>)\<rparr>]"
        using sh Some by simp
      then show ?thesis
        by (rule cache_inv_shards_update[OF assms(1) shard_inv_update[OF s Some]])
    next
      case stale
      then have "shards c' = shards c" using sh Some by simp
      then show ?thesis using assms(1) by (simp add: cache_inv_def)
    next
      case gone
      then have "shards c' = (shards c)[i := (shards c ! i)
                             \<lparr>store := (store (shards c ! i))(key := None),
                              size_n := size_n (shards c ! i) - 1\<rparr>]"
        using sh Some by simp
      then show ?thesis
        by (rule cache_inv_shards_update[OF assms(1) shard_inv_delete[OF s Some]])
    qed
  qed
qed

lemma Delete_inv:
  assumes "cache_inv c" and "Delete c key = Inr c'"
  shows "cache_inv c'"
proof -
  obtain i where g: "getShard c key = Inr i"
    using Inr_getShard(3)[OF assms(2)] by blast
  have i: "i < length (shards c)" by (rule getShard_bound[OF g])
  have s: "shard_inv (shards c ! i)" by (rule cache_inv_nth[OF assms(1) i])
  show ?thesis
  proof (cases "store (shards c ! i) key")
    case None
    then have "c' = c" using assms(2)[unfolded Delete_unfold[OF g] sum.inject, symmetric] by simp
    then show ?thesis using assms(1) by simp
  next
    case (Some e)
    then have "shards c' = (shards c)[i := (shards c ! i)
                     \<lparr>store := (store (shards c ! i))(key := None),
                      size_n := size_n (shards c ! i) - 1\<rparr>]"
      using assms(2) unfolding Delete_unfold[OF g] by auto
    then show ?thesis
      by (rule cache_inv_shards_update[OF assms(1) shard_inv_delete[OF s Some]])
  qed
qed

lemma delete_expired_inv:
  "shard_inv s \<Longrightarrow> shard_inv (fst (delete_expired now keys (s, pool)))"
proof (induction keys arbitrary: s pool)
  case Nil
  then show ?case by simp
next
  case (Cons key keys)
  show ?case
  proof (cases "store s key")
    case None
    then show ?thesis using Cons by simp
  next
    case (Some e)
    show ?thesis
    proof (cases "0 <s Expiration e \<and> Expiration e <s now")
      case True
      then show ?thesis
        using Some Cons.IH[OF shard_inv_delete[OF Cons.prems Some]] by (simp add: Let_def)
    next
      case False
      then show ?thesis using Some Cons by (auto simp: Let_def)
    qed
  qed
qed

lemma cleanup_shard_inv:
  assumes "cache_inv c"
  shows "cache_inv (cleanup_shard c now i kvs)"
proof (cases "i < length (shards c)")
  case True
  have "shard_inv (fst (delete_expired now (collect_expired now kvs []) (shards c ! i, entryPool c)))"
    by (rule delete_expired_inv[OF cache_inv_nth[OF assms True]])
  then show ?thesis
    using assms
    by (auto simp: cleanup_shard_def Let_def split: prod.splits
        intro: cache_inv_shards_update[OF assms])
next
  case False
  then show ?thesis
    using assms by (simp add: cleanup_shard_def Let_def cache_inv_def list_update_beyond split: prod.splits)
qed

lemma cleanup_shard_length: "length (shards (cleanup_shard c now i kvs)) = length (shards c)"
  by (simp add: cleanup_shard_def Let_def split: prod.splits)

lemma fold_cleanup_inv:
  "cache_inv c \<Longrightarrow> cache_inv (fold (\<lambda>i c1. cleanup_shard c1 now i (kvss i)) is c)"
  by (induction "is" arbitrary: c) (simp_all add: cleanup_shard_inv)

lemma cleanup_tick_inv: "cache_inv c \<Longrightarrow> cache_inv (cleanup_tick c now kvss)"
  by (simp add: cleanup_tick_def fold_cleanup_inv)

lemma clear_loop_store:
  "store (fst (clear_loop kvs (s, pool))) = (\<lambda>k. if k \<in> fst ` set kvs then None else store s k)"
  by (induction kvs arbitrary: s pool) (force simp: fun_eq_iff)+

lemma ranges_dom: "ranges m kvs \<Longrightarrow> dom m = fst ` set kvs"
  by (force simp: ranges_def dom_map_of_conv_image_fst)

lemma clear_loop_empty:
  assumes "ranges (store s) kvs"
  shows "store (fst (clear_loop kvs (s, pool))) = Map.empty"
proof
  fix k
  show "store (fst (clear_loop kvs (s, pool))) k = None"
    using ranges_dom[OF assms] by (auto simp: clear_loop_store)
qed

lemma Clear_shard_nth:
  "i < length (shards c) \<Longrightarrow>
     shards (Clear_shard c i kvs) ! j =
       (if j = i then (fst (clear_loop kvs (shards c ! i, entryPool c)))\<lparr>size_n := 0\<rparr>
        else shards c ! j)"
  by (simp add: Clear_shard_def split: prod.splits)

lemma Clear_shard_inv:
  assumes "cache_inv c" and "i < length (shards c)" and "ranges (store (shards c ! i)) kvs"
  shows "cache_inv (Clear_shard c i kvs)"
proof -
  have "shard_inv ((fst (clear_loop kvs (shards c ! i, entryPool c)))\<lparr>size_n := 0\<rparr>)"
    by (simp add: shard_inv_def clear_loop_empty[OF assms(3)])
  then show ?thesis
    by (rule cache_inv_shards_update[OF assms(1), where i = i])
       (simp add: Clear_shard_def split: prod.splits)
qed

lemma fold_Clear_inv:
  assumes "cache_inv c" and "distinct is"
    and "\<forall>i \<in> set is. i < length (shards c) \<and> ranges (store (shards c ! i)) (kvss i)"
  shows "cache_inv (fold (\<lambda>i c1. Clear_shard c1 i (kvss i)) is c)"
  using assms
proof (induction "is" arbitrary: c)
  case Nil
  then show ?case by simp
next
  case (Cons i "is")
  have i: "i < length (shards c)" and r: "ranges (store (shards c ! i)) (kvss i)"
    using Cons.prems(3) by simp_all
  have 1: "cache_inv (Clear_shard c i (kvss i))"
    by (rule Clear_shard_inv[OF Cons.prems(1) i r])
  have 2: "\<forall>j \<in> set is. j < length (shards (Clear_shard c i (kvss i))) \<and>
             ranges (store (shards (Clear_shard c i (kvss i)) ! j)) (kvss j)"
    using Cons.prems(2,3) i by (auto simp: Clear_shard_counters Clear_shard_nth)
  show ?case
    using Cons.IH[OF 1 _ 2] Cons.prems(2) by simp
qed

lemma Clear_inv:
  assumes "cache_inv c" and "ranges_all c kvss"
  shows "cache_inv (Clear c kvss)"
  unfolding Clear_def
  using assms(2) by (intro fold_Clear_inv[OF assms(1)]) (simp_all add: ranges_all_def)

lemma step_inv:
  assumes "step c c'" and "cache_inv c"
  shows "cache_inv c'"
  using assms
proof (cases rule: step.cases)
  case (step_Set key i kvs now0 now1 now2 val ttls)
  then show ?thesis using Set_inv[OF assms(2)] by blast
next
  case (step_Get now freshNow key r)
  then show ?thesis using Get_inv[OF assms(2)] by blast
next
  case (step_Delete key)
  then show ?thesis using Delete_inv[OF assms(2)] by blast
next
  case (step_Clear kvss)
  then show ?thesis using Clear_inv[OF assms(2)] by blast
next
  case (step_evictOldest i kvs)
  then show ?thesis using evict_key_inv[OF assms(2)] by (simp add: evictOldest_def)
next
  case (step_evictOldest_scan i kvs)
  then show ?thesis using evict_key_inv[OF assms(2)] by (simp add: evictOldest_scan_def)
next
  case (step_cleanup kvss now)
  then show ?thesis using cleanup_tick_inv[OF assms(2)] by blast
qed

lemma reachable_inv: "reachable c \<Longrightarrow> cache_inv c"
  by (induction rule: reachable.induct) (auto intro: cache_inv_New step_inv)

text \<open>
  Claim C6. In every state reachable from a newly constructed cache by \<^verbatim>\<open>Set\<close>,
  \<^verbatim>\<open>Get\<close>, \<^verbatim>\<open>Delete\<close>, \<^verbatim>\<open>Clear\<close>, eviction and cleanup ticks, the size counter of
  every shard is the number of keys in the map of that shard (a finite number), and each
  of these operations preserves this equality.
\<close>

theorem live_count_invariant:
  "(reachable c \<longrightarrow>
      (\<forall>s \<in> set (shards c). finite (dom (store s)) \<and> size_n s = int (card (dom (store s))))) \<and>
   (cache_inv d \<and> step d d' \<longrightarrow> cache_inv d')"
proof -
  have "reachable c \<Longrightarrow>
      \<forall>s \<in> set (shards c). finite (dom (store s)) \<and> size_n s = int (card (dom (store s)))"
    using reachable_inv[of c] by (simp add: cache_inv_def shard_inv_def)
  moreover have "cache_inv d \<Longrightarrow> step d d' \<Longrightarrow> cache_inv d'"
    by (rule step_inv)
  ultimately show ?thesis by blast
qed

theorem live_count_invariant_witness:
  "reachable (projr (Set (NewKVCacheWithCapacity 300000000000 10 :: nat KVCache)
        1000 1000 1000 [] ''key1'' (Some 7) [])) \<and>
   cache_inv (NewKVCacheWithCapacity 300000000000 10 :: nat KVCache) \<and>
   step (NewKVCacheWithCapacity 300000000000 10 :: nat KVCache)
     (projr (Set (NewKVCacheWithCapacity 300000000000 10 :: nat KVCache)
        1000 1000 1000 [] ''key1'' (Some 7) [])) \<and>
   cache_inv (projr (Set (NewKVCacheWithCapacity 300000000000 10 :: nat KVCache)
        1000 1000 1000 [] ''key1'' (Some 7) []))"
proof -
  let ?c0 = "NewKVCacheWithCapacity 300000000000 10 :: nat KVCache"
  let ?i = "unat (fnv32a_Sum32 ''key1'' mod 256)"
  have w: "wf_cache ?c0" by (rule wf_New)
  have g: "getShard ?c0 ''key1'' = Inr ?i" by (rule getShard_wf(1)[OF w])
  obtain c1 where s: "Set ?c0 1000 1000 1000 [] ''key1'' (Some 7) [] = Inr c1"
    using Set_total[OF w] by blast
  have "?i < 256" using getShard_wf(2)[OF w, of "''key1''"] by (simp add: NewKVCacheWithCapacity_def)
  then have r: "ranges (store (shards ?c0 ! ?i)) []"
    by (simp add: ranges_def NewKVCacheWithCapacity_def)
  have st: "step ?c0 c1" by (rule step_Set[OF g r s])
  have re: "reachable c1" by (rule reachable_step[OF reachable_New st])
  have i0: "cache_inv ?c0" by (rule cache_inv_New)
  from live_count_invariant[of c1 ?c0 c1] i0 st have "cache_inv c1" by blast
  with re i0 st show ?thesis by (simp add: s)
qed

section \<open>When Set evicts\<close>

text \<open>
  Claim C3. \<^verbatim>\<open>Set(k, v)\<close> returns, and its eviction counter is that of
  \<^verbatim>\<open>evictOldest\<close> run on the shard of \<open>k\<close> when the capacity is positive, the
  live-count of the shard is at least the capacity and \<open>k\<close> is not in the shard, and is
  unchanged otherwise. Unless all three hold, no other key of the shard and no other
  shard changes. When \<open>k\<close> is already in the shard, the keys of the shard, its
  live-count, the eviction counter and the entry pool stay as they were.
\<close>

theorem eviction_trigger:
  assumes "getShard c key = Inr i"
  shows "\<exists>c'. Set c now0 now1 now2 kvs key val ttls = Inr c' \<and>
     evictions c' =
       evictions (if 0 < maxCapacity c \<and> maxCapacity c \<le> size_n (shards c ! i) \<and>
                     store (shards c ! i) key = None
                  then evictOldest c i kvs else c) \<and>
     (\<not> (0 < maxCapacity c \<and> maxCapacity c \<le> size_n (shards c ! i) \<and>
          store (shards c ! i) key = None) \<longrightarrow>
        evictions c' = evictions c \<and>
        (\<forall>k. k \<noteq> key \<longrightarrow> store (shards c' ! i) k = store (shards c ! i) k) \<and>
        (\<forall>j. j \<noteq> i \<longrightarrow> shards c' ! j = shards c ! j)) \<and>
     (store (shards c ! i) key \<noteq> None \<longrightarrow>
        evictions c' = evictions c \<and> entryPool c' = entryPool c \<and>
        dom (store (shards c' ! i)) = dom (store (shards c ! i)) \<and>
        size_n (shards c' ! i) = size_n (shards c ! i))"
proof -
  have i: "i < length (shards c)" by (rule getShard_bound[OF assms])
  show ?thesis
    unfolding Set_unfold[OF assms]
    using i by (auto simp: Let_def)
qed

theorem eviction_trigger_witness:
  "getShard (projr (Set (NewKVCacheWithCapacity 300000000000 1 :: nat KVCache)
        1000 1000 1000 [] ''ak'' (Some 7) [])) ''ak'' = Inr 197 \<and>
   store (shards (projr (Set (NewKVCacheWithCapacity 300000000000 1 :: nat KVCache)
        1000 1000 1000 [] ''ak'' (Some 7) [])) ! 197) ''ak'' \<noteq> None \<and>
   (\<exists>c'. Set (projr (Set (NewKVCacheWithCapacity 300000000000 1 :: nat KVCache)
        1000 1000 1000 [] ''ak'' (Some 7) [])) 2000 2000 2000 [] ''ak'' (Some 8) [] = Inr c' \<and>
      evictions c' = 0 \<and> size_n (shards c' ! 197) = 1)"
proof -
  let ?c0 = "NewKVCacheWithCapacity 300000000000 1 :: nat KVCache"
  have w: "wf_cache ?c0" by (rule wf_New)
  have h: "unat (fnv32a_Sum32 ''ak'' mod 256) = 197"
    by (simp add: fnv32a_Sum32_def fnv_offset32_def fnv_prime32_def)
  have g0: "getShard ?c0 ''ak'' = Inr 197" using getShard_wf(1)[OF w, of "''ak''"] h by simp
  from Set_stores[OF g0, of 1000 1000 1000 "[]" "Some 7" "[]"]
  obtain c1 where s: "Set ?c0 1000 1000 1000 [] ''ak'' (Some 7) [] = Inr c1"
    and e: "store (shards c1 ! 197) ''ak'' \<noteq> None" by auto
  have g1: "getShard c1 ''ak'' = Inr 197"
    using g0 getShard_index_only[OF Set_frame(1,2)[OF s]] by simp
  have ev: "evictions c1 = 0" and sz: "size_n (shards c1 ! 197) = 1"
    using s unfolding Set_unfold[OF g0]
    by (auto simp: Let_def NewKVCacheWithCapacity_def)
  from eviction_trigger[OF g1, of 2000 2000 2000 "[]" "Some 8" "[]"] e ev sz
  have "\<exists>c'. Set c1 2000 2000 2000 [] ''ak'' (Some 8) [] = Inr c' \<and>
      evictions c' = 0 \<and> size_n (shards c' ! 197) = 1"
    by auto
  with g1 e show ?thesis by (simp add: s)
qed

section \<open>What a cleanup tick removes\<close>

lemma collect_expired_eq:
  "collect_expired now kvs acc = acc @ map fst (filter (\<lambda>(k, e). expired now e) kvs)"
  by (induction kvs arbitrary: acc) (auto simp: expired_def Let_def)

lemma delete_expired_store:
  "store (fst (delete_expired now keys (s, pool))) k =
     (case store s k of
        None \<Rightarrow> None
      | Some e \<Rightarrow> if k \<in> set keys \<and> expired now e then None else Some e)"
proof (induction keys arbitrary: s pool)
  case Nil
  then show ?case by (simp split: option.splits)
next
  case (Cons key keys)
  show ?case
  proof (cases "store s key")
    case None
    then show ?thesis using Cons.IH[of s pool] by (auto split: option.splits)
  next
    case (Some e)
    show ?thesis
    proof (cases "expired now e")
      case True
      then show ?thesis
        using Some
          Cons.IH[of "s\<lparr>store := (store s)(key := None), size_n := size_n s - 1\<rparr>"
            "entryPool_Put e pool"]
        by (auto simp: expired_def Let_def split: option.splits)
    next
      case False
      then show ?thesis
        using Some Cons.IH[of s pool] by (auto simp: expired_def Let_def split: option.splits)
    qed
  qed
qed

lemma ranges_mem: "ranges m kvs \<Longrightarrow> m k = Some e \<Longrightarrow> (k, e) \<in> set kvs"
  by (auto simp: ranges_def dest: map_of_SomeD)

lemma cleanup_shard_alt:
  "cleanup_shard c now i kvs =
     (if collect_expired now kvs [] \<noteq> [] then
        c\<lparr>shards := (shards c)[i := fst (delete_expired now (collect_expired now kvs [])
                                         (shards c ! i, entryPool c))],
          entryPool := snd (delete_expired now (collect_expired now kvs [])
                                         (shards c ! i, entryPool c))\<rparr>
      else c)"
  by (simp add: cleanup_shard_def Let_def split: prod.splits)

lemma cleanup_shard_store:
  assumes "i < length (shards c)" and "ranges (store (shards c ! i)) kvs"
  shows "store (shards (cleanup_shard c now i kvs) ! i) k =
     (case store (shards c ! i) k of
        None \<Rightarrow> None
      | Some e \<Rightarrow> if expired now e then None else Some e)"
proof (cases "store (shards c ! i) k")
  case None
  then show ?thesis
    using assms(1) by (simp add: cleanup_shard_alt delete_expired_store)
next
  case (Some e)
  have mem: "expired now e \<Longrightarrow> k \<in> set (collect_expired now kvs [])"
    using ranges_mem[OF assms(2) Some] by (force simp: collect_expired_eq)
  show ?thesis
  proof (cases "expired now e")
    case True
    then have "collect_expired now kvs [] \<noteq> []" using mem by auto
    then show ?thesis
      using assms(1) Some True mem by (simp add: cleanup_shard_alt delete_expired_store)
  next
    case False
    then show ?thesis
      using assms(1) Some by (simp add: cleanup_shard_alt delete_expired_store)
  qed
qed

lemma cleanup_shard_other:
  "j \<noteq> i \<Longrightarrow> shards (cleanup_shard c now i kvs) ! j = shards c ! j"
  by (simp add: cleanup_shard_alt)

lemma cleanup_shard_numShards: "numShards (cleanup_shard c now i kvs) = numShards c"
  by (simp add: cleanup_shard_def Let_def split: prod.splits)

lemma fold_cleanup_frame:
  "length (shards (fold (\<lambda>i c1. cleanup_shard c1 now i (kvss i)) is c)) = length (shards c) \<and>
   numShards (fold (\<lambda>i c1. cleanup_shard c1 now i (kvss i)) is c) = numShards c"
  by (induction "is" arbitrary: c) (simp_all add: cleanup_shard_length cleanup_shard_numShards)

lemma fold_cleanup_store:
  assumes "distinct is"
    and "\<forall>i \<in> set is. i < length (shards c) \<and> ranges (store (shards c ! i)) (kvss i)"
  shows "store (shards (fold (\<lambda>i c1. cleanup_shard c1 now i (kvss i)) is c) ! j) k =
     (if j \<in> set is
      then (case store (shards c ! j) k of
              None \<Rightarrow> None
            | Some e \<Rightarrow> if expired now e then None else Some e)
      else store (shards c ! j) k)"
  using assms
proof (induction "is" arbitrary: c)
  case Nil
  then show ?case by simp
next
  case (Cons i "is")
  let ?c1 = "cleanup_shard c now i (kvss i)"
  have i: "i < length (shards c)" and r: "ranges (store (shards c ! i)) (kvss i)"
    using Cons.prems(2) by simp_all
  have d: "distinct is" and ni: "i \<notin> set is" using Cons.prems(1) by simp_all
  have 2: "\<forall>j \<in> set is. j < length (shards ?c1) \<and> ranges (store (shards ?c1 ! j)) (kvss j)"
  proof
    fix j assume j: "j \<in> set is"
    then have "j \<noteq> i" using ni by auto
    then show "j < length (shards ?c1) \<and> ranges (store (shards ?c1 ! j)) (kvss j)"
      using Cons.prems(2) j by (simp add: cleanup_shard_length cleanup_shard_other)
  qed
  note IH = Cons.IH[OF d 2]
  show ?case
  proof (cases "j = i")
    case True
    then show ?thesis
      using IH ni cleanup_shard_store[OF i r, of now k] by simp
  next
    case False
    then show ?thesis
      using IH by (simp add: cleanup_shard_other)
  qed
qed

lemma cleanup_tick_wf: "wf_cache c \<Longrightarrow> wf_cache (cleanup_tick c now kvss)"
  by (simp add: wf_cache_def cleanup_tick_def fold_cleanup_frame)

lemma cleanup_tick_lookup:
  assumes "wf_cache c" and "ranges_all c kvss"
  shows "lookup (cleanup_tick c now kvss) key =
     (case lookup c key of
        None \<Rightarrow> None
      | Some e \<Rightarrow> if expired now e then None else Some e)"
proof -
  let ?j = "unat (fnv32a_Sum32 key mod 256)"
  have j: "?j < length (shards c)" by (rule getShard_wf(2)[OF assms(1)])
  have "store (shards (cleanup_tick c now kvss) ! ?j) key =
     (case store (shards c ! ?j) key of
        None \<Rightarrow> None
      | Some e \<Rightarrow> if expired now e then None else Some e)"
    unfolding cleanup_tick_def
    using assms(2) j
    by (subst fold_cleanup_store) (simp_all add: ranges_all_def)
  then show ?thesis
    by (simp add: lookup_wf[OF assms(1)] lookup_wf[OF cleanup_tick_wf[OF assms(1)]])
qed

section \<open>Reachable caches are well-formed\<close>

text \<open>Every reachable cache is well-formed, so no operation on it panics.\<close>

lemma Get_frame:
  assumes "Get c now freshNow key = Inr (r, c')"
  shows "numShards c' = numShards c" "length (shards c') = length (shards c)"
proof -
  obtain i where g: "getShard c key = Inr i"
    using Inr_getShard(2)[OF assms] by blast
  show "numShards c' = numShards c" "length (shards c') = length (shards c)"
    using assms unfolding Get_unfold[OF g]
    by (auto split: option.splits if_splits)
qed

lemma step_wf:
  assumes "step c c'" and "wf_cache c"
  shows "wf_cache c'"
  using assms
proof (cases rule: step.cases)
  case (step_Set key i kvs now0 now1 now2 val ttls)
  then show ?thesis using Set_wf[OF assms(2)] by blast
next
  case (step_Get now freshNow key r)
  then show ?thesis using Get_frame[of c now freshNow key r c'] assms(2) by (simp add: wf_cache_def)
next
  case (step_Delete key)
  then show ?thesis using Delete_frame(1,2)[of c key c'] assms(2) by (simp add: wf_cache_def)
next
  case (step_Clear kvss)
  then show ?thesis using assms(2) by (simp add: wf_cache_def Clear_counters)
next
  case (step_evictOldest i kvs)
  then show ?thesis using assms(2) by (simp add: wf_cache_def evictOldest_def evict_key_frame)
next
  case (step_evictOldest_scan i kvs)
  then show ?thesis using assms(2) by (simp add: wf_cache_def evictOldest_scan_def evict_key_frame)
next
  case (step_cleanup kvss now)
  then show ?thesis using cleanup_tick_wf[OF assms(2)] by simp
qed

lemma reachable_wf: "reachable c \<Longrightarrow> wf_cache c"
  by (induction rule: reachable.induct) (auto intro: wf_New step_wf)

section \<open>Expiration\<close>

text \<open>The first \<^verbatim>\<open>Set\<close> on a newly constructed cache.\<close>

lemma Set_New:
  "Set (NewKVCacheWithCapacity d m) now0 now1 now2 kvs key val ttls =
     Inr ((NewKVCacheWithCapacity d m)
       \<lparr>shards := (replicate 256 \<lparr>store = Map.empty, size_n = 0\<rparr>)
          [unat (fnv32a_Sum32 key mod 256) :=
             \<lparr>store = [key \<mapsto> \<lparr>Value = val,
                                 Expiration = spec_deadline d now0 now1 (override ttls),
                                 lastAccess = now2\<rparr>],
              size_n = 1\<rparr>]\<rparr>)"
proof -
  have b: "unat (fnv32a_Sum32 key mod 256) < 256"
    using getShard_wf(2)[OF wf_New, of key d m] by (simp add: NewKVCacheWithCapacity_def)
  show ?thesis
    unfolding Set_unfold[OF getShard_wf(1)[OF wf_New]]
    using b by (cases "0 < m") (simp_all add: NewKVCacheWithCapacity_def Let_def entryPool_Get_def)
qed

lemma key1_shard: "unat (fnv32a_Sum32 ''key1'' mod 256) = 103"
  by (simp add: fnv32a_Sum32_def fnv_offset32_def fnv_prime32_def)

lemma Set_New_lookup:
  "lookup (projr (Set (NewKVCacheWithCapacity d m) now0 now1 now2 kvs key val ttls)) key
     = Some \<lparr>Value = val, Expiration = spec_deadline d now0 now1 (override ttls),
             lastAccess = now2\<rparr>"
proof -
  have b: "unat (fnv32a_Sum32 key mod 256) < 256"
    using getShard_wf(2)[OF wf_New, of key d m] by (simp add: NewKVCacheWithCapacity_def)
  have "wf_cache (projr (Set (NewKVCacheWithCapacity d m) now0 now1 now2 kvs key val ttls))"
    by (simp add: Set_New) (simp add: wf_cache_def NewKVCacheWithCapacity_def)
  from lookup_wf[OF this] show ?thesis
    using b by (simp add: Set_New)
qed

lemma Set_New_wf:
  "wf_cache (projr (Set (NewKVCacheWithCapacity d m) now0 now1 now2 kvs key val ttls))"
  by (simp add: Set_New) (simp add: wf_cache_def NewKVCacheWithCapacity_def)

text \<open>
  Claim C2, as amended. For an entry stored under a key of a well-formed cache,
  \<^verbatim>\<open>Get\<close> reports the key as not found iff the stored \<open>Expiration\<close> is strictly
  positive and the clock reading is strictly greater than it, and returns the value as
  found otherwise; so an entry whose \<open>Expiration\<close> is zero or negative is found whatever
  the clock reads. A cleanup tick removes the entry under the same condition and keeps
  it otherwise.
\<close>

theorem expiration_semantics:
  assumes "wf_cache c" and "lookup c key = Some e"
  shows "(\<exists>c'. Get c now freshNow key =
            Inr (if 0 <s Expiration e \<and> Expiration e <s now then (None, False)
                 else (Value e, True), c')) \<and>
         (Expiration e \<le>s 0 \<longrightarrow> (\<exists>c'. Get c now freshNow key = Inr ((Value e, True), c'))) \<and>
         (ranges_all c kvss \<longrightarrow>
            lookup (cleanup_tick c now kvss) key =
              (if 0 <s Expiration e \<and> Expiration e <s now then None else Some e))"
proof -
  from Get_present[OF assms, of now freshNow]
  have 1: "\<exists>c'. Get c now freshNow key =
            Inr (if 0 <s Expiration e \<and> Expiration e <s now then (None, False)
                 else (Value e, True), c')"
    by (simp add: expired_def)
  have "\<not> 0 <s Expiration e" if "Expiration e \<le>s 0"
    using that by (simp add: word_sless_alt word_sle_eq)
  with 1 have 2: "Expiration e \<le>s 0 \<longrightarrow> (\<exists>c'. Get c now freshNow key = Inr ((Value e, True), c'))"
    by auto
  have 3: "lookup (cleanup_tick c now kvss) key =
              (if 0 <s Expiration e \<and> Expiration e <s now then None else Some e)"
    if "ranges_all c kvss"
    using cleanup_tick_lookup[OF assms(1) that, of now key] assms(2) by (simp add: expired_def)
  from 1 2 3 show ?thesis by blast
qed

theorem expiration_semantics_witness:
  "wf_cache (projr (Set (NewKVCache 100000000 :: nat KVCache)
        1700000000000000000 1700000000000000000 1700000000000000000 [] ''key1'' (Some 7) [])) \<and>
   lookup (projr (Set (NewKVCache 100000000 :: nat KVCache)
        1700000000000000000 1700000000000000000 1700000000000000000 [] ''key1'' (Some 7) []))
      ''key1''
     = Some \<lparr>Value = Some 7, Expiration = 1700000000100000000,
             lastAccess = 1700000000000000000\<rparr> \<and>
   ranges_all (projr (Set (NewKVCache 100000000 :: nat KVCache)
        1700000000000000000 1700000000000000000 1700000000000000000 [] ''key1'' (Some 7) []))
     (\<lambda>i. if i = 103
          then [(''key1'', \<lparr>Value = Some 7, Expiration = 1700000000100000000,
                             lastAccess = 1700000000000000000\<rparr>)]
          else []) \<and>
   (\<exists>c'. Get (projr (Set (NewKVCache 100000000 :: nat KVCache)
        1700000000000000000 1700000000000000000 1700000000000000000 [] ''key1'' (Some 7) []))
        1700000000150000000 1700000000150000000 ''key1'' = Inr ((None, False), c')) \<and>
   lookup (cleanup_tick (projr (Set (NewKVCache 100000000 :: nat KVCache)
        1700000000000000000 1700000000000000000 1700000000000000000 [] ''key1'' (Some 7) []))
       1700000000150000000
       (\<lambda>i. if i = 103
          then [(''key1'', \<lparr>Value = Some 7, Expiration = 1700000000100000000,
                             lastAccess = 1700000000000000000\<rparr>)]
          else [])) ''key1'' = None \<and>
   (\<exists>c'. Get (projr (Set (NewKVCache 100000000 :: nat KVCache)
        1700000000000000000 1700000000000000000 1700000000000000000 [] ''key1'' (Some 7) []))
        1700000000000000005 1700000000000000005 ''key1'' = Inr ((Some 7, True), c')) \<and>
   lookup (projr (Set (NewKVCache (- 9223372036854775808) :: nat KVCache)
        1700000000000000000 1700000000000000000 1700000000000000000 [] ''key1'' (Some 7) []))
      ''key1''
     = Some \<lparr>Value = Some 7, Expiration = - 7523372036854775808,
             lastAccess = 1700000000000000000\<rparr> \<and>
   (- 7523372036854775808 :: int64) \<le>s 0 \<and>
   (\<exists>c'. Get (projr (Set (NewKVCache (- 9223372036854775808) :: nat KVCache)
        1700000000000000000 1700000000000000000 1700000000000000000 [] ''key1'' (Some 7) []))
        1700000000150000000 1700000000150000000 ''key1'' = Inr ((Some 7, True), c'))"
proof -
  let ?c = "projr (Set (NewKVCache 100000000 :: nat KVCache)
        1700000000000000000 1700000000000000000 1700000000000000000 [] ''key1'' (Some 7) [])"
  let ?e = "\<lparr>Value = Some (7::nat), Expiration = 1700000000100000000,
             lastAccess = 1700000000000000000\<rparr>"
  let ?kvss = "\<lambda>i::nat. if i = 103 then [(''key1'', ?e)] else []"
  have w: "wf_cache ?c" by (simp add: NewKVCache_def Set_New_wf)
  have l: "lookup ?c ''key1'' = Some ?e"
    by (simp add: NewKVCache_def Set_New_lookup) (simp add: spec_deadline_def override_def)
  have r: "ranges_all ?c ?kvss"
    by (simp add: NewKVCache_def Set_New key1_shard)
       (simp add: ranges_all_def ranges_def NewKVCacheWithCapacity_def nth_list_update
          spec_deadline_def override_def)
  have x: "0 <s Expiration ?e \<and> Expiration ?e <s 1700000000150000000"
    by (simp add: word_sless_alt)
  have y: "\<not> (0 <s Expiration ?e \<and> Expiration ?e <s 1700000000000000005)"
    by (simp add: word_sless_alt)
  from expiration_semantics[OF w l, of 1700000000150000000 1700000000150000000 ?kvss] r x
  have a: "(\<exists>c'. Get ?c 1700000000150000000 1700000000150000000 ''key1'' = Inr ((None, False), c'))"
    and b: "lookup (cleanup_tick ?c 1700000000150000000 ?kvss) ''key1'' = None"
    by simp_all
  from expiration_semantics[OF w l, of 1700000000000000005 1700000000000000005 ?kvss] y
  have c: "(\<exists>c'. Get ?c 1700000000000000005 1700000000000000005 ''key1'' = Inr ((Some 7, True), c'))"
    by simp
  let ?d = "projr (Set (NewKVCache (- 9223372036854775808) :: nat KVCache)
        1700000000000000000 1700000000000000000 1700000000000000000 [] ''key1'' (Some 7) [])"
  let ?f = "\<lparr>Value = Some (7::nat), Expiration = - 7523372036854775808,
             lastAccess = 1700000000000000000\<rparr>"
  have wd: "wf_cache ?d" by (simp add: NewKVCache_def Set_New_wf)
  have ld: "lookup ?d ''key1'' = Some ?f"
    by (simp add: NewKVCache_def Set_New_lookup) (simp add: spec_deadline_def override_def)
  have z: "(- 7523372036854775808 :: int64) \<le>s 0" by (simp add: word_sle_eq)
  from expiration_semantics[OF wd ld, of 1700000000150000000 1700000000150000000 ?kvss] z
  have d: "(\<exists>c'. Get ?d 1700000000150000000 1700000000150000000 ''key1'' = Inr ((Some 7, True), c'))"
    by simp
  from w l r a b c ld z d show ?thesis by blast
qed

text \<open>
  The claim as stated (expired iff the deadline is non-zero and the clock is past it)
  fails for an entry with a negative deadline, which \<^verbatim>\<open>Set\<close> stores on a cache built
  with the default TTL \<^verbatim>\<open>math.MinInt64\<close>: the deadline is non-zero and the clock is
  past it, yet \<^verbatim>\<open>Get\<close> returns the value as found.
\<close>

theorem expiration_semantics_counterexample:
  "lookup (projr (Set (NewKVCache (- 9223372036854775808) :: nat KVCache)
        1700000000000000000 1700000000000000000 1700000000000000000 [] ''key1'' (Some 7) []))
      ''key1''
     = Some \<lparr>Value = Some 7, Expiration = - 7523372036854775808,
             lastAccess = 1700000000000000000\<rparr> \<and>
   (- 7523372036854775808 :: int64) \<noteq> 0 \<and>
   (- 7523372036854775808 :: int64) <s 1700000000000000005 \<and>
   map_sum id fst (Get (projr (Set (NewKVCache (- 9223372036854775808) :: nat KVCache)
        1700000000000000000 1700000000000000000 1700000000000000000 [] ''key1'' (Some 7) []))
        1700000000000000005 1700000000000000005 ''key1'') = Inr (Some 7, True)"
proof -
  let ?c = "projr (Set (NewKVCache (- 9223372036854775808) :: nat KVCache)
        1700000000000000000 1700000000000000000 1700000000000000000 [] ''key1'' (Some 7) [])"
  let ?e = "\<lparr>Value = Some (7::nat), Expiration = - 7523372036854775808,
             lastAccess = 1700000000000000000\<rparr>"
  have w: "wf_cache ?c" by (simp add: NewKVCache_def Set_New_wf)
  have l: "lookup ?c ''key1'' = Some ?e"
    by (simp add: NewKVCache_def Set_New_lookup) (simp add: spec_deadline_def override_def)
  have n: "\<not> expired 1700000000000000005 ?e"
    by (simp add: expired_def word_sless_alt)
  from Get_present[OF w l, of 1700000000000000005 1700000000000000005] n
  have "map_sum id fst (Get ?c 1700000000000000005 1700000000000000005 ''key1'') = Inr (Some 7, True)"
    by auto
  moreover have "(- 7523372036854775808 :: int64) <s 1700000000000000005"
    by (simp add: word_sless_alt)
  ultimately show ?thesis using l by simp
qed

section \<open>The eviction algorithm\<close>

lemma evict_loop_take:
  "evict_loop kvs n (k0, t0) = scan_loop (take (sampleSize - n) kvs) (k0, t0)"
proof (induction kvs arbitrary: n k0 t0)
  case Nil
  then show ?case by simp
next
  case (Cons kv kvs)
  obtain k e where kv: "kv = (k, e)" by (cases kv)
  show ?case
  proof (cases "sampleSize \<le> n")
    case True
    then show ?thesis by (simp add: kv)
  next
    case False
    then obtain d where d: "sampleSize - n = Suc d" by (cases "sampleSize - n") auto
    then have d': "sampleSize - Suc n = d" by simp
    show ?thesis
      using False by (simp add: kv d Cons.IH d')
  qed
qed

lemma scan_loop_keep:
  "\<forall>kv \<in> set kvs. \<not> lastAccess (snd kv) <s t0 \<Longrightarrow> scan_loop kvs (k0, t0) = (k0, t0)"
  by (induction kvs) auto

lemma scan_loop_first_min:
  assumes "j < length kvs" and "kvs ! j = (k, e)"
    and "\<forall>m < length kvs. lastAccess e \<le>s lastAccess (snd (kvs ! m))"
    and "\<forall>m < j. lastAccess e <s lastAccess (snd (kvs ! m))"
    and "lastAccess e <s t0"
  shows "scan_loop kvs (k0, t0) = (k, lastAccess e)"
  using assms
proof (induction kvs arbitrary: j k0 t0)
  case Nil
  then show ?case by simp
next
  case (Cons kv kvs)
  obtain k1 e1 where kv: "kv = (k1, e1)" by (cases kv)
  show ?case
  proof (cases j)
    case 0
    then have ke: "k1 = k" "e1 = e" using Cons.prems(2) kv by simp_all
    have "\<forall>kv \<in> set kvs. \<not> lastAccess (snd kv) <s lastAccess e"
    proof
      fix x assume "x \<in> set kvs"
      then obtain m where "m < length kvs" "kvs ! m = x" by (auto simp: in_set_conv_nth)
      then have "lastAccess e \<le>s lastAccess (snd x)"
        using Cons.prems(3)[rule_format, of "Suc m"] by simp
      then show "\<not> lastAccess (snd x) <s lastAccess e"
        by (simp add: word_sless_alt word_sle_eq)
    qed
    then show ?thesis
      using Cons.prems(5) by (simp add: kv ke scan_loop_keep)
  next
    case (Suc j')
    have j': "j' < length kvs" and nth: "kvs ! j' = (k, e)"
      using Cons.prems(1,2) Suc by simp_all
    have all: "\<forall>m < length kvs. lastAccess e \<le>s lastAccess (snd (kvs ! m))"
      using Cons.prems(3) by force
    have before: "\<forall>m < j'. lastAccess e <s lastAccess (snd (kvs ! m))"
      using Cons.prems(4) Suc by force
    have first: "lastAccess e <s lastAccess e1"
      using Cons.prems(4)[rule_format, of 0] Suc kv by simp
    show ?thesis
    proof (cases "lastAccess e1 <s t0")
      case True
      then show ?thesis
        using Cons.IH[OF j' nth all before first] by (simp add: kv)
    next
      case False
      then show ?thesis
        using Cons.IH[OF j' nth all before Cons.prems(5)] by (simp add: kv)
    qed
  qed
qed

lemma ranges_lookup: "ranges m kvs \<Longrightarrow> (k, e) \<in> set kvs \<Longrightarrow> m k = Some e"
  by (auto simp: ranges_def)

text \<open>
  What \<^verbatim>\<open>evictOldest\<close> does when it removes an entry: among the first \<open>sampleSize\<close>
  pairs of the iteration, the first one with the smallest \<open>lastAccess\<close> is taken out of
  the map and handed to the entry pool, the live-count goes down by one and the eviction
  counter up by one. This needs that smallest \<open>lastAccess\<close> to be below
  \<^verbatim>\<open>math.MaxInt64\<close> and the key not to be the empty string.
\<close>

lemma evictOldest_removes_oldest:
  assumes "i < length (shards c)" and "ranges (store (shards c ! i)) kvs"
    and "j < length (take sampleSize kvs)" and "take sampleSize kvs ! j = (k, e)"
    and "\<forall>m < length (take sampleSize kvs).
           lastAccess e \<le>s lastAccess (snd (take sampleSize kvs ! m))"
    and "\<forall>m < j. lastAccess e <s lastAccess (snd (take sampleSize kvs ! m))"
    and "lastAccess e <s MaxInt64" and "k \<noteq> ''''"
  shows "evictOldest c i kvs =
     c\<lparr>shards := (shards c)[i := (shards c ! i)
            \<lparr>store := (store (shards c ! i))(k := None), size_n := size_n (shards c ! i) - 1\<rparr>],
       entryPool := e # entryPool c,
       evictions := evictions c + 1\<rparr>"
proof -
  have "evict_loop kvs 0 ('''', MaxInt64) = (k, lastAccess e)"
    unfolding evict_loop_take
    using scan_loop_first_min[OF assms(3,4,5,6,7)] by simp
  moreover have "(k, e) \<in> set kvs"
    using assms(3,4) by (metis in_set_takeD nth_mem)
  then have "store (shards c ! i) k = Some e"
    by (rule ranges_lookup[OF assms(2)])
  ultimately show ?thesis
    using assms(8) by (simp add: evictOldest_def evict_key_def entryPool_Put_def Let_def)
qed

lemma evictOldest_nothing_sampled: "evictOldest c i [] = c"
  by (simp add: evictOldest_def evict_key_def)

text \<open>
  With at most \<open>sampleSize\<close> pairs the sampling \<^verbatim>\<open>evictOldest\<close> and the older
  full scan agree.
\<close>

lemma evictOldest_scan_eq:
  "length kvs \<le> sampleSize \<Longrightarrow> evictOldest_scan c i kvs = evictOldest c i kvs"
  by (simp add: evictOldest_def evictOldest_scan_def evict_loop_take)

lemma empty_key_shard: "unat (fnv32a_Sum32 '''' mod 256) = 197"
  by (simp add: fnv32a_Sum32_def fnv_offset32_def)

lemma ak_shard: "unat (fnv32a_Sum32 ''ak'' mod 256) = 197"
  by (simp add: fnv32a_Sum32_def fnv_offset32_def fnv_prime32_def)

text \<open>
  Claim C4 (eviction algorithm), at an input where the code departs from it. A cache
  with per-shard capacity 1 holds the key \<^verbatim>\<open>""\<close>; the key \<^verbatim>\<open>"ak"\<close> routes to the
  same shard (197), so \<^verbatim>\<open>Set("ak", 2)\<close> calls \<^verbatim>\<open>evictOldest\<close> on a shard at its
  capacity. The loop examines the one entry of the shard, which has the smallest
  \<open>lastAccess\<close>, and records its key in \<^verbatim>\<open>oldestKey\<close>; that key is the empty string,
  the value \<^verbatim>\<open>oldestKey\<close> starts with, so the test \<^verbatim>\<open>oldestKey != ""\<close> skips the
  removal. \<^verbatim>\<open>evictOldest\<close> leaves the cache as it was, the eviction counter stays 0
  and the shard ends with two entries.
\<close>

theorem evictOldest_empty_key:
  "getShard (projr (Set (NewKVCacheWithCapacity 300000000000 1 :: int KVCache)
       1700000000000000000 1700000000000000000 1700000000000000000 [] '''' (Some 1) []))
     ''ak'' = Inr 197 \<and>
   ranges (store (shards (projr (Set (NewKVCacheWithCapacity 300000000000 1 :: int KVCache)
       1700000000000000000 1700000000000000000 1700000000000000000 [] '''' (Some 1) [])) ! 197))
     [('''', \<lparr>Value = Some 1, Expiration = 1700000300000000000,
               lastAccess = 1700000000000000000\<rparr>)] \<and>
   size_n (shards (projr (Set (NewKVCacheWithCapacity 300000000000 1 :: int KVCache)
       1700000000000000000 1700000000000000000 1700000000000000000 [] '''' (Some 1) [])) ! 197) = 1 \<and>
   evictOldest (projr (Set (NewKVCacheWithCapacity 300000000000 1 :: int KVCache)
       1700000000000000000 1700000000000000000 1700000000000000000 [] '''' (Some 1) [])) 197
     [('''', \<lparr>Value = Some 1, Expiration = 1700000300000000000,
               lastAccess = 1700000000000000000\<rparr>)]
     = projr (Set (NewKVCacheWithCapacity 300000000000 1 :: int KVCache)
       1700000000000000000 1700000000000000000 1700000000000000000 [] '''' (Some 1) []) \<and>
   evictions (projr (Set (projr (Set (NewKVCacheWithCapacity 300000000000 1 :: int KVCache)
       1700000000000000000 1700000000000000000 1700000000000000000 [] '''' (Some 1) []))
       1700000000000000500 1700000000000000500 1700000000000000500
       [('''', \<lparr>Value = Some 1, Expiration = 1700000300000000000,
                 lastAccess = 1700000000000000000\<rparr>)] ''ak'' (Some 2) [])) = 0 \<and>
   size_n (shards (projr (Set (projr (Set (NewKVCacheWithCapacity 300000000000 1 :: int KVCache)
       1700000000000000000 1700000000000000000 1700000000000000000 [] '''' (Some 1) []))
       1700000000000000500 1700000000000000500 1700000000000000500
       [('''', \<lparr>Value = Some 1, Expiration = 1700000300000000000,
                 lastAccess = 1700000000000000000\<rparr>)] ''ak'' (Some 2) [])) ! 197) = 2"
proof -
  let ?c0 = "NewKVCacheWithCapacity 300000000000 1 :: int KVCache"
  let ?e = "\<lparr>Value = Some (1::int), Expiration = 1700000300000000000,
             lastAccess = 1700000000000000000\<rparr>"
  define c1 where "c1 = ?c0\<lparr>shards := (replicate 256 \<lparr>store = Map.empty, size_n = 0\<rparr>)
          [197 := \<lparr>store = ['''' \<mapsto> ?e], size_n = 1\<rparr>]\<rparr>"
  have s1: "Set ?c0 1700000000000000000 1700000000000000000 1700000000000000000 [] '''' (Some 1) []
      = Inr c1"
    by (simp add: Set_New empty_key_shard c1_def spec_deadline_def override_def)
  have w1: "wf_cache c1" by (simp add: c1_def wf_cache_def NewKVCacheWithCapacity_def)
  have g: "getShard c1 ''ak'' = Inr 197" using getShard_wf(1)[OF w1, of "''ak''"] by (simp add: ak_shard)
  have sh: "shards c1 ! 197 = \<lparr>store = ['''' \<mapsto> ?e], size_n = 1\<rparr>"
    by (simp add: c1_def)
  have r: "ranges (store (shards c1 ! 197)) [('''', ?e)]"
    by (simp add: sh ranges_def)
  have ev: "evictOldest c1 197 [('''', ?e)] = c1"
    by (simp add: evictOldest_def evict_key_def sampleSize_def MaxInt64_def word_sless_alt)
  have m: "maxCapacity c1 = 1" "evictions c1 = 0"
    by (simp_all add: c1_def NewKVCacheWithCapacity_def)
  have l: "length (shards c1) = 256" using w1 by (simp add: wf_cache_def)
  have s2: "evictions (projr (Set c1 1700000000000000500 1700000000000000500 1700000000000000500
       [('''', ?e)] ''ak'' (Some 2) [])) = 0 \<and>
     size_n (shards (projr (Set c1 1700000000000000500 1700000000000000500 1700000000000000500
       [('''', ?e)] ''ak'' (Some 2) [])) ! 197) = 2"
    unfolding Set_unfold[OF g] by (simp add: Let_def ev sh m l)
  show ?thesis
    unfolding s1 using g r sh ev s2 by simp
qed

section \<open>Rounding to binary64\<close>

text \<open>
  \<open>float64_exponent\<close> brackets its argument between two powers of two, rounding to an
  integer moves a number by at most one half, and so rounding a number of the normal
  range to binary64 changes it by a factor between \<open>1 - 2^-53\<close> and \<open>1 + 2^-53\<close>.
\<close>

lemma float64_exponent_bounds:
  assumes "0 < x"
  shows "2 powi (float64_exponent x) \<le> x" and "x < 2 powi (float64_exponent x + 1)"
proof -
  have "2 powi (float64_exponent x) \<le> x \<and> x < 2 powi (float64_exponent x + 1)"
  proof (cases "1 \<le> x")
    case True
    let ?n = "\<lfloor>x\<rfloor>"
    have n: "0 < ?n" using True by simp
    have b1: "bitlen ?n \<ge> 1" using n by (auto simp: bitlen_alt_def)
    from bitlen_bounds[OF n] have lo: "2 ^ nat (bitlen ?n - 1) \<le> ?n" and hi: "?n < 2 ^ nat (bitlen ?n)"
      by simp_all
    have e: "float64_exponent x = bitlen ?n - 1" using True by (simp add: float64_exponent_def)
    have p1: "(2::real) powi (bitlen ?n - 1) = 2 ^ nat (bitlen ?n - 1)"
      using b1 by (simp add: power_int_def)
    have p2: "(2::real) powi (bitlen ?n - 1 + 1) = 2 ^ nat (bitlen ?n)"
      using b1 by (simp add: power_int_def)
    have "(2::real) ^ nat (bitlen ?n - 1) \<le> of_int ?n"
      using lo by (metis of_int_le_iff of_int_numeral of_int_power)
    also have "\<dots> \<le> x" by simp
    finally have A: "(2::real) ^ nat (bitlen ?n - 1) \<le> x" .
    have "?n + 1 \<le> 2 ^ nat (bitlen ?n)" using hi by simp
    then have "of_int (?n + 1) \<le> (2::real) ^ nat (bitlen ?n)"
      by (metis of_int_le_iff of_int_numeral of_int_power)
    moreover have "x < of_int (?n + 1)" by linarith
    ultimately have B: "x < (2::real) ^ nat (bitlen ?n)" by linarith
    show ?thesis using A B by (simp only: e p1 p2)
  next
    case False
    then have x1: "x < 1" by simp
    let ?c = "\<lceil>1 / x\<rceil>"
    have inv: "1 < 1 / x" using assms x1 by simp
    have c2: "2 \<le> ?c" using inv by linarith
    have m: "0 < ?c - 1" using c2 by simp
    let ?n = "bitlen (?c - 1)"
    have b1: "?n \<ge> 1" using m by (auto simp: bitlen_alt_def)
    from bitlen_bounds[OF m] have lo: "2 ^ nat (?n - 1) \<le> ?c - 1" and hi: "?c - 1 < 2 ^ nat ?n"
      by simp_all
    have e: "float64_exponent x = - ?n" using False by (simp add: float64_exponent_def)
    have p1: "(2::real) powi (- ?n) = 1 / 2 ^ nat ?n"
      using b1 by (simp add: power_int_def field_simps)
    have p2: "(2::real) powi (- ?n + 1) = 1 / 2 ^ nat (?n - 1)"
      using b1 by (simp add: power_int_def field_simps nat_diff_distrib)
    have "?c \<le> 2 ^ nat ?n" using hi by simp
    then have "of_int ?c \<le> (2::real) ^ nat ?n"
      by (metis of_int_le_iff of_int_numeral of_int_power)
    moreover have "1 / x \<le> of_int ?c" by simp
    ultimately have "1 / x \<le> 2 ^ nat ?n" by linarith
    then have A: "1 / 2 ^ nat ?n \<le> x"
      using assms by (simp add: field_simps)
    have "(2::real) ^ nat (?n - 1) \<le> of_int (?c - 1)"
      using lo by (metis of_int_le_iff of_int_numeral of_int_power)
    moreover have "of_int (?c - 1) < 1 / x" by linarith
    ultimately have "(2::real) ^ nat (?n - 1) < 1 / x" by linarith
    then have B: "x < 1 / 2 ^ nat (?n - 1)"
      using assms by (simp add: field_simps)
    show ?thesis using A B by (simp only: e p1 p2)
  qed
  then show "2 powi (float64_exponent x) \<le> x" and "x < 2 powi (float64_exponent x + 1)"
    by simp_all
qed

lemma round_even_error: "\<bar>of_int (round_even q) - q\<bar> \<le> 1 / 2"
proof -
  have "of_int \<lfloor>q\<rfloor> \<le> q" "q < of_int \<lfloor>q\<rfloor> + 1" by linarith+
  then show ?thesis
    by (auto simp: round_even_def Let_def)
qed

lemma round_even_nonneg: "0 \<le> q \<Longrightarrow> 0 \<le> round_even q"
  by (auto simp: round_even_def Let_def)

lemma float64_round_normal:
  assumes lo: "2 powi (- 1022) \<le> x" and hi: "x \<le> 2 ^ 1000"
  shows "\<exists>y. float64_round x = Finite y \<and>
           (1 - 1 / 2 ^ 53) * x \<le> y \<and> y \<le> (1 + 1 / 2 ^ 53) * x"
proof -
  have pos: "0 < x"
  proof -
    have "(0::real) < 2 powi (- 1022)" by (rule zero_less_power_int) simp
    with lo show ?thesis by linarith
  qed
  define e where "e = float64_exponent x"
  define k where "k = e - 52"
  define p :: real where "p = 2 powi k"
  define q where "q = x / p"
  define n where "n = round_even q"
  have e1: "2 powi e \<le> x" and e2: "x < 2 powi (e + 1)"
    using float64_exponent_bounds[OF pos] by (simp_all add: e_def)
  have eg: "- 1022 \<le> e"
  proof (rule ccontr)
    assume "\<not> - 1022 \<le> e"
    then have "e + 1 \<le> - 1022" by simp
    then have "(2::real) powi (e + 1) \<le> 2 powi (- 1022)"
      by (intro power_int_increasing) simp_all
    with e2 lo show False by linarith
  qed
  then have mx: "max (float64_exponent x - 52) (- 1074) = k"
    by (simp add: k_def e_def)
  have p0: "0 < p" unfolding p_def by (rule zero_less_power_int) simp
  have pe: "2 powi e = p * 2 ^ 52"
  proof -
    have "(2::real) powi e = 2 powi (k + 52)" by (simp add: k_def)
    also have "\<dots> = 2 powi k * 2 powi 52" by (rule power_int_add) simp
    finally show ?thesis by (simp add: p_def)
  qed
  have qp: "q * p = x" using p0 by (simp add: q_def)
  have qlo: "2 ^ 52 \<le> q"
  proof -
    have "p * 2 ^ 52 \<le> q * p" using e1 by (simp only: pe qp)
    then show ?thesis using p0 by (simp add: mult.commute)
  qed
  have err: "\<bar>of_int n - q\<bar> \<le> 1 / 2" unfolding n_def by (rule round_even_error)
  have half: "1 / 2 \<le> q / 2 ^ 53" using qlo by simp
  have d1: "q - of_int n \<le> q / 2 ^ 53" and d2: "of_int n - q \<le> q / 2 ^ 53"
    using err half by linarith+
  have nlo: "(1 - 1 / 2 ^ 53) * q \<le> of_int n"
    using d1 by (simp add: left_diff_distrib)
  have nhi: "of_int n \<le> (1 + 1 / 2 ^ 53) * q"
    using d2 by (simp add: distrib_right)
  define y where "y = of_int n * p"
  have ylo: "(1 - 1 / 2 ^ 53) * x \<le> y"
  proof -
    have "(1 - 1 / 2 ^ 53) * q * p \<le> of_int n * p"
      using nlo p0 by (intro mult_right_mono) simp_all
    then show ?thesis by (simp add: y_def mult.assoc qp)
  qed
  have yhi: "y \<le> (1 + 1 / 2 ^ 53) * x"
  proof -
    have "of_int n * p \<le> (1 + 1 / 2 ^ 53) * q * p"
      using nhi p0 by (intro mult_right_mono) simp_all
    then show ?thesis by (simp add: y_def mult.assoc qp)
  qed
  have "y \<le> 2 * x"
  proof -
    have "(1 + 1 / 2 ^ 53) * x \<le> 2 * x" using pos by (intro mult_right_mono) simp_all
    with yhi show ?thesis by linarith
  qed
  also have "\<dots> \<le> 2 * 2 ^ 1000" using hi by simp
  also have "\<dots> < (2::real) ^ 1024" by simp
  finally have nov: "\<not> 2 ^ 1024 \<le> y" by simp
  have "float64_round x = Finite y"
    using pos nov
    by (simp add: float64_round_def Let_def mx y_def n_def q_def p_def)
  with ylo yhi show ?thesis by blast
qed

lemma float64_round_zero: "float64_round 0 = Finite 0"
  by (simp add: float64_round_def)

lemma num_hi: "(1 + 1 / 2 ^ 53) * ((1 + 1 / 2 ^ 53) * ((1 + 1 / 2 ^ 53) / (1 - 1 / 2 ^ 53))) \<le> (1 + 1 / 2 ^ 50 :: real)"
  by simp

lemma num_lo: "(1 - 1 / 2 ^ 50 :: real) \<le> (1 - 1 / 2 ^ 53) * ((1 - 1 / 2 ^ 53) * ((1 - 1 / 2 ^ 53) / (1 + 1 / 2 ^ 53)))"
  by simp

lemma p1022: "(2::real) powi (- 1022) \<le> 1 / 2 ^ 67"
  by simp

text \<open>
  The two conversions, the division and the multiplication of \<^verbatim>\<open>HitRate\<close> round
  four times; together they change the exact percentage by a factor between
  \<open>1 - 2^-50\<close> and \<open>1 + 2^-50\<close>.
\<close>

lemma float64_round_range:
  assumes "1 / 2 ^ 67 \<le> x" and "x \<le> 2 ^ 74"
  shows "\<exists>y. float64_round x = Finite y \<and>
           (1 - 1 / 2 ^ 53) * x \<le> y \<and> y \<le> (1 + 1 / 2 ^ 53) * x"
proof (rule float64_round_normal)
  show "2 powi (- 1022) \<le> x" using p1022 assms(1) by linarith
  have "(2::real) ^ 74 \<le> 2 ^ 1000" by simp
  with assms(2) show "x \<le> 2 ^ 1000" by linarith
qed

lemma HitRate_arith:
  fixes h t :: real
  assumes h: "1 \<le> h" "h \<le> 2 ^ 64" and t: "1 \<le> t" "t \<le> 2 ^ 64"
  shows "\<exists>r. float64_mul (float64_div (float64_round h) (float64_round t)) (Finite 100) = Finite r \<and>
           (1 - 1 / 2 ^ 50) * (100 * h / t) \<le> r \<and> r \<le> (1 + 1 / 2 ^ 50) * (100 * h / t)"
proof -
  let ?lo = "1 - 1 / 2 ^ 53 :: real" and ?hi = "1 + 1 / 2 ^ 53 :: real"
  have lo0: "0 < ?lo" and lo1: "1 / 2 \<le> ?lo" and hi2: "?hi \<le> 2" and hi0: "0 < ?hi"
    by simp_all
  obtain a where a: "float64_round h = Finite a" and alo: "?lo * h \<le> a" and ahi: "a \<le> ?hi * h"
    using float64_round_range[of h] h by (auto simp: field_simps) 
  obtain b where b: "float64_round t = Finite b" and blo: "?lo * t \<le> b" and bhi: "b \<le> ?hi * t"
    using float64_round_range[of t] t by (auto simp: field_simps)
  have a_half: "1 / 2 \<le> a"
  proof -
    have "1 / 2 * 1 \<le> ?lo * h" using lo1 h(1) by (intro mult_mono) simp_all
    with alo show ?thesis by simp
  qed
  have b_half: "1 / 2 \<le> b"
  proof -
    have "1 / 2 * 1 \<le> ?lo * t" using lo1 t(1) by (intro mult_mono) simp_all
    with blo show ?thesis by simp
  qed
  have a_up: "a \<le> 2 ^ 65"
  proof -
    have "?hi * h \<le> 2 * 2 ^ 64" using hi2 h by (intro mult_mono) simp_all
    with ahi show ?thesis by simp
  qed
  have b_up: "b \<le> 2 ^ 65"
  proof -
    have "?hi * t \<le> 2 * 2 ^ 64" using hi2 t by (intro mult_mono) simp_all
    with bhi show ?thesis by simp
  qed
  have a0: "0 < a" and b0: "0 < b" using a_half b_half by linarith+
  have h0: "0 < h" and t0: "0 < t" using h t by linarith+
  define \<rho> where "\<rho> = h / t"
  have \<rho>0: "0 < \<rho>" using h0 t0 by (simp add: \<rho>_def)
  have ab_hi: "a / b \<le> (?hi / ?lo) * \<rho>"
  proof -
    have "a / b \<le> (?hi * h) / (?lo * t)"
      using a0 ahi lo0 t0 blo by (intro frac_le) simp_all
    then show ?thesis by (simp add: \<rho>_def)
  qed
  have ab_lo: "(?lo / ?hi) * \<rho> \<le> a / b"
  proof -
    have "(?lo * h) / (?hi * t) \<le> a / b"
      using lo0 h0 alo b0 bhi by (intro frac_le) simp_all
    then show ?thesis by (simp add: \<rho>_def)
  qed
  have ab_min: "1 / 2 ^ 67 \<le> a / b"
  proof -
    have "(1 / 2) / 2 ^ 65 \<le> a / b"
      using a_half b0 b_up by (intro frac_le) simp_all
    moreover have "(1 / 2 ^ 67 :: real) \<le> (1 / 2) / 2 ^ 65" by simp
    ultimately show ?thesis by (rule order_trans[rotated])
  qed
  have ab_max: "a / b \<le> 2 ^ 66"
  proof -
    have "a / b \<le> 2 ^ 65 / (1 / 2)"
      using a0 a_up b_half by (intro frac_le) simp_all
    moreover have "(2 ^ 65 / (1 / 2) :: real) \<le> 2 ^ 66" by simp
    ultimately show ?thesis by (rule order_trans)
  qed
  obtain q where q: "float64_round (a / b) = Finite q"
    and qlo: "?lo * (a / b) \<le> q" and qhi: "q \<le> ?hi * (a / b)"
  proof -
    have "(2::real) ^ 66 \<le> 2 ^ 74" by simp
    with ab_max have "a / b \<le> 2 ^ 74" by linarith
    from float64_round_range[OF ab_min this] show ?thesis using that by blast
  qed
  have ab0: "0 < a / b" using a0 b0 by simp
  have q_min: "1 / 2 ^ 68 \<le> q"
  proof -
    have "1 / 2 * (1 / 2 ^ 67) \<le> ?lo * (a / b)"
      using lo1 ab_min by (intro mult_mono) simp_all
    with qlo show ?thesis by simp
  qed
  have q_max: "q \<le> 2 ^ 67"
  proof -
    have "?hi * (a / b) \<le> 2 * 2 ^ 66"
      using hi2 ab_max ab0 by (intro mult_mono) simp_all
    with qhi show ?thesis by simp
  qed
  have q0: "0 < q"
  proof -
    have "(0::real) < 1 / 2 ^ 68" by simp
    with q_min show ?thesis by linarith
  qed
  have m_min: "1 / 2 ^ 67 \<le> q * 100"
  proof -
    have "1 / 2 ^ 68 * 2 \<le> q * 100" using q_min by (intro mult_mono) simp_all
    then show ?thesis by simp
  qed
  have m_max: "q * 100 \<le> 2 ^ 74"
  proof -
    have "q * 100 \<le> 2 ^ 67 * 2 ^ 7" using q_max q0 by (intro mult_mono) simp_all
    then show ?thesis by simp
  qed
  obtain r where r: "float64_round (q * 100) = Finite r"
    and rlo: "?lo * (q * 100) \<le> r" and rhi: "r \<le> ?hi * (q * 100)"
    using float64_round_range[OF m_min m_max] by blast
  have eq: "float64_mul (float64_div (float64_round h) (float64_round t)) (Finite 100) = Finite r"
    using b0 by (simp add: a b q r)
  have up: "r \<le> (1 + 1 / 2 ^ 50) * (100 * h / t)"
  proof -
    have "q \<le> ?hi * ((?hi / ?lo) * \<rho>)"
    proof -
      have "?hi * (a / b) \<le> ?hi * ((?hi / ?lo) * \<rho>)"
        using ab_hi hi0 by (intro mult_left_mono) simp_all
      with qhi show ?thesis by linarith
    qed
    then have "q * 100 \<le> ?hi * ((?hi / ?lo) * \<rho>) * 100" by simp
    then have "?hi * (q * 100) \<le> ?hi * (?hi * ((?hi / ?lo) * \<rho>) * 100)"
      using hi0 by (intro mult_left_mono) simp_all
    with rhi have "r \<le> ?hi * (?hi * ((?hi / ?lo) * \<rho>) * 100)" by linarith
    also have "\<dots> = (?hi * (?hi * (?hi / ?lo))) * (100 * \<rho>)" by simp
    also have "\<dots> \<le> (1 + 1 / 2 ^ 50) * (100 * \<rho>)"
      using num_hi \<rho>0 by (intro mult_right_mono) simp_all
    finally show ?thesis by (simp add: \<rho>_def)
  qed
  have down: "(1 - 1 / 2 ^ 50) * (100 * h / t) \<le> r"
  proof -
    have "?lo * ((?lo / ?hi) * \<rho>) \<le> q"
    proof -
      have "?lo * ((?lo / ?hi) * \<rho>) \<le> ?lo * (a / b)"
        using ab_lo lo0 by (intro mult_left_mono) simp_all
      with qlo show ?thesis by linarith
    qed
    then have "?lo * ((?lo / ?hi) * \<rho>) * 100 \<le> q * 100" by simp
    then have "?lo * (?lo * ((?lo / ?hi) * \<rho>) * 100) \<le> ?lo * (q * 100)"
      using lo0 by (intro mult_left_mono) simp_all
    with rlo have *: "?lo * (?lo * ((?lo / ?hi) * \<rho>) * 100) \<le> r" by linarith
    have "(1 - 1 / 2 ^ 50) * (100 * \<rho>) \<le> (?lo * (?lo * (?lo / ?hi))) * (100 * \<rho>)"
      using num_lo \<rho>0 by (intro mult_right_mono) simp_all
    also have "\<dots> = ?lo * (?lo * ((?lo / ?hi) * \<rho>) * 100)" by simp
    finally show ?thesis using * by (simp add: \<rho>_def)
  qed
  from eq up down show ?thesis by blast
qed

section \<open>Hit rate\<close>

lemma uint64_real_bounds:
  fixes w :: uint64
  assumes "w \<noteq> 0"
  shows "1 \<le> (of_int (uint w) :: real)" and "(of_int (uint w) :: real) \<le> 2 ^ 64"
proof -
  have "uint w \<noteq> 0" using assms by (simp add: uint_0_iff)
  moreover have "0 \<le> uint w" by simp
  ultimately have "1 \<le> uint w" by linarith
  then show "1 \<le> (of_int (uint w) :: real)" by linarith
  have "uint w < 2 ^ 64" using uint_lt2p[of w] by simp
  then have "(of_int (uint w) :: real) < of_int (2 ^ 64)" by (simp only: of_int_less_iff)
  then show "(of_int (uint w) :: real) \<le> 2 ^ 64" by simp
qed

lemma relative_error:
  fixes r P :: real
  assumes "(1 - 1 / 2 ^ 50) * P \<le> r" and "r \<le> (1 + 1 / 2 ^ 50) * P"
  shows "\<bar>r - P\<bar> \<le> P / 2 ^ 50"
proof -
  define d where "d = P / 2 ^ 50"
  have "(1 + 1 / 2 ^ 50) * P = P + d" by (simp add: distrib_right d_def)
  with assms(2) have a: "r \<le> P + d" by (simp only:)
  have "(1 - 1 / 2 ^ 50) * P = P - d" by (simp add: left_diff_distrib d_def)
  with assms(1) have b: "P - d \<le> r" by (simp only:)
  from a b have "\<bar>r - P\<bar> \<le> d" by linarith
  then show ?thesis by (simp only: d_def)
qed

lemma HitRate_zero_hits:
  assumes "Hits s = 0" 
  shows "HitRate s = Finite 0"
proof (cases "Misses s = 0")
  case True
  with assms show ?thesis by (simp add: HitRate_def)
next
  case False
  from uint64_real_bounds[OF False] float64_round_range[of "of_int (uint (Misses s))"]
  obtain b where b: "float64_round (of_int (uint (Misses s))) = Finite b"
    and blo: "(1 - 1 / 2 ^ 53) * of_int (uint (Misses s)) \<le> b"
  proof -
    have "1 / 2 ^ 67 \<le> (1::real)" by simp
    with uint64_real_bounds(1)[OF False] have l: "1 / 2 ^ 67 \<le> (of_int (uint (Misses s)) :: real)"
      by linarith
    have "(2::real) ^ 64 \<le> 2 ^ 74" by simp
    with uint64_real_bounds(2)[OF False] have u: "(of_int (uint (Misses s)) :: real) \<le> 2 ^ 74"
      by linarith
    from float64_round_range[OF l u] show ?thesis using that by blast
  qed
  have "(1 - 1 / 2 ^ 53) * 1 \<le> (1 - 1 / 2 ^ 53) * (of_int (uint (Misses s)) :: real)"
    using uint64_real_bounds(1)[OF False] by (intro mult_left_mono) simp_all
  with blo have "0 < b" by simp
  with assms False b show ?thesis
    by (simp add: HitRate_def float64_of_uint64_def float64_round_zero)
qed

lemma HitRate_bounds:
  assumes "Hits s + Misses s \<noteq> 0"
  shows "\<exists>r. HitRate s = Finite r \<and>
           (1 - 1 / 2 ^ 50) * (100 * of_int (uint (Hits s)) / of_int (uint (Hits s + Misses s))) \<le> r \<and>
           r \<le> (1 + 1 / 2 ^ 50) * (100 * of_int (uint (Hits s)) / of_int (uint (Hits s + Misses s)))"
proof (cases "Hits s = 0")
  case True
  then show ?thesis by (simp add: HitRate_zero_hits)
next
  case False
  from HitRate_arith[OF uint64_real_bounds[OF False] uint64_real_bounds[OF assms]]
  show ?thesis using assms
    by (simp add: HitRate_def float64_of_uint64_def Let_def)
qed

text \<open>
  Values of \<^verbatim>\<open>HitRate\<close> and of the conversion, computed from the definitions: one
  hit in three operations gives the binary64 value \<^verbatim>\<open>0x4040aaaaaaaaaaaa\<close>, one hit in
  two gives exactly 50, and \<open>2^53 + 1\<close> converts to \<open>2^53\<close>.
\<close>

lemma HitRate_one_of_three:
  "HitRate \<lparr>Hits = 1, Misses = 2, Evictions = 0, Size_field = 0\<rparr>
     = Finite (2345624805922133 / 70368744177664)"
  by code_simp

lemma HitRate_one_of_two:
  "HitRate \<lparr>Hits = 1, Misses = 1, Evictions = 0, Size_field = 0\<rparr> = Finite 50"
  by code_simp

lemma HitRate_wrapped_total:
  "HitRate \<lparr>Hits = 9223372036854775808, Misses = 9223372036854775808, Evictions = 0,
            Size_field = 0\<rparr> = Finite 0"
  by (simp add: HitRate_def)

lemma float64_of_uint64_rounds:
  "float64_of_uint64 9007199254740993 = Finite 9007199254740992"
  by code_simp

text \<open>
  Claim C8, as amended. \<^verbatim>\<open>HitRate\<close> never divides by zero: for every
  \<^verbatim>\<open>CacheStats\<close> value its result is a finite \<^verbatim>\<open>float64\<close> that is not negative;
  it is 0 when the \<^verbatim>\<open>uint64\<close> sum \<^verbatim>\<open>Hits + Misses\<close> is 0, and when \<^verbatim>\<open>Hits\<close>
  is 0. When the sum of the two counters fits in a \<^verbatim>\<open>uint64\<close>, the result is the
  exact percentage \<open>100 * Hits / (Hits + Misses)\<close> up to the rounding of the
  \<^verbatim>\<open>float64\<close> operations: it differs from the exact percentage by at most the
  fraction \<open>2^-50\<close> of it (and is 0 when the sum is 0). In general, when the
  \<^verbatim>\<open>uint64\<close> sum is not 0, the same bound holds with the wrapped sum
  \<open>(Hits + Misses) mod 2^64\<close> as the denominator.
\<close>

theorem hit_rate:
  "(\<exists>r. HitRate s = Finite r \<and> 0 \<le> r) \<and>
   (Hits s + Misses s = 0 \<longrightarrow> HitRate s = Finite 0) \<and>
   (Hits s = 0 \<longrightarrow> HitRate s = Finite 0) \<and>
   (Hits s + Misses s \<noteq> 0 \<longrightarrow>
      (\<exists>r. HitRate s = Finite r \<and>
           \<bar>r - 100 * real_of_int (uint (Hits s)) / real_of_int (uint (Hits s + Misses s))\<bar>
             \<le> (100 * real_of_int (uint (Hits s)) / real_of_int (uint (Hits s + Misses s))) / 2 ^ 50)) \<and>
   (uint (Hits s) + uint (Misses s) < 2 ^ 64 \<longrightarrow>
      (\<exists>r. HitRate s = Finite r \<and>
           \<bar>r - 100 * real_of_int (uint (Hits s)) / real_of_int (uint (Hits s) + uint (Misses s))\<bar>
             \<le> (100 * real_of_int (uint (Hits s)) / real_of_int (uint (Hits s) + uint (Misses s))) / 2 ^ 50))"
proof (intro conjI impI)
  show "\<exists>r. HitRate s = Finite r \<and> 0 \<le> r"
  proof (cases "Hits s + Misses s = 0")
    case True
    then show ?thesis by (simp add: HitRate_def)
  next
    case False
    from HitRate_bounds[OF False] obtain r where r: "HitRate s = Finite r"
      and lo: "(1 - 1 / 2 ^ 50) * (100 * of_int (uint (Hits s)) / of_int (uint (Hits s + Misses s))) \<le> r"
      by blast
    have "0 \<le> (100 * of_int (uint (Hits s)) / of_int (uint (Hits s + Misses s)) :: real)"
      by (intro divide_nonneg_nonneg mult_nonneg_nonneg) (simp_all del: of_int_uint)
    then have "0 \<le> (1 - 1 / 2 ^ 50) * (100 * of_int (uint (Hits s)) / of_int (uint (Hits s + Misses s)) :: real)"
      by (intro mult_nonneg_nonneg) simp_all
    with lo have "0 \<le> r" by linarith
    with r show ?thesis by blast
  qed
next
  assume "Hits s + Misses s = 0"
  then show "HitRate s = Finite 0" by (simp add: HitRate_def)
next
  assume "Hits s = 0"
  then show "HitRate s = Finite 0" by (rule HitRate_zero_hits)
next
  assume nz: "Hits s + Misses s \<noteq> 0"
  let ?Q = "100 * real_of_int (uint (Hits s)) / real_of_int (uint (Hits s + Misses s))"
  from HitRate_bounds[OF nz] obtain r where r: "HitRate s = Finite r"
    and lo: "(1 - 1 / 2 ^ 50) * ?Q \<le> r" and hi: "r \<le> (1 + 1 / 2 ^ 50) * ?Q"
    by blast
  from relative_error[OF lo hi] r show "\<exists>r. HitRate s = Finite r \<and> \<bar>r - ?Q\<bar> \<le> ?Q / 2 ^ 50"
    by blast
next
  assume nw: "uint (Hits s) + uint (Misses s) < 2 ^ 64"
  let ?P = "100 * real_of_int (uint (Hits s)) / real_of_int (uint (Hits s) + uint (Misses s))"
  have sum: "uint (Hits s + Misses s) = uint (Hits s) + uint (Misses s)"
    using nw uint_add_lem[of "Hits s" "Misses s"] by simp
  show "\<exists>r. HitRate s = Finite r \<and> \<bar>r - ?P\<bar> \<le> ?P / 2 ^ 50"
  proof (cases "Hits s + Misses s = 0")
    case True
    then have "uint (Hits s + Misses s) = 0" by simp
    with sum have "uint (Hits s) + uint (Misses s) = 0" by simp
    then have "real_of_int (uint (Hits s) + uint (Misses s)) = 0" by (simp only: of_int_0)
    then have P0: "?P = 0" by (simp only: div_by_0)
    from True have "HitRate s = Finite 0" by (simp add: HitRate_def)
    then have "HitRate s = Finite 0 \<and> \<bar>0 - ?P\<bar> \<le> ?P / 2 ^ 50"
      unfolding P0 by simp
    then show ?thesis by blast
  next
    case False
    from HitRate_bounds[OF False] obtain r where r: "HitRate s = Finite r"
      and lo: "(1 - 1 / 2 ^ 50) * ?P \<le> r" and hi: "r \<le> (1 + 1 / 2 ^ 50) * ?P"
      unfolding sum by blast
    from relative_error[OF lo hi] r show ?thesis by blast
  qed
qed

theorem hit_rate_witness:
  "uint (1 :: uint64) + uint (2 :: uint64) < 2 ^ 64 \<and>
   (\<exists>r. HitRate \<lparr>Hits = 1, Misses = 2, Evictions = 0, Size_field = 0\<rparr> = Finite r \<and> 0 \<le> r \<and>
        \<bar>r - 100 / 3\<bar> \<le> (100 / 3) / 2 ^ 50) \<and>
   HitRate \<lparr>Hits = 0, Misses = 0, Evictions = 0, Size_field = 0\<rparr> = Finite 0 \<and>
   HitRate \<lparr>Hits = 0, Misses = 4, Evictions = 0, Size_field = 0\<rparr> = Finite 0 \<and>
   (18446744073709551615 :: uint64) + 2 \<noteq> 0 \<and>
   (\<exists>r. HitRate \<lparr>Hits = 18446744073709551615, Misses = 2, Evictions = 0, Size_field = 0\<rparr> = Finite r \<and>
        \<bar>r - 100 * 18446744073709551615 / 1\<bar> \<le> (100 * 18446744073709551615 / 1) / 2 ^ 50)"
proof -
  let ?s = "\<lparr>Hits = 1, Misses = 2, Evictions = 0, Size_field = 0\<rparr>"
  let ?t = "\<lparr>Hits = 18446744073709551615, Misses = 2, Evictions = 0, Size_field = 0\<rparr>"
  have nw: "uint (1 :: uint64) + uint (2 :: uint64) < 2 ^ 64" by simp
  from hit_rate[of ?s] nw
  have "\<exists>r. HitRate ?s = Finite r \<and>
          \<bar>r - 100 * real_of_int (uint (1 :: uint64)) / real_of_int (uint (1 :: uint64) + uint (2 :: uint64))\<bar>
            \<le> (100 * real_of_int (uint (1 :: uint64)) / real_of_int (uint (1 :: uint64) + uint (2 :: uint64))) / 2 ^ 50"
    by simp
  then obtain r where r: "HitRate ?s = Finite r" and e: "\<bar>r - 100 / 3\<bar> \<le> (100 / 3) / 2 ^ 50"
    by auto
  from hit_rate[of ?s] r have "0 \<le> r" by auto
  moreover from hit_rate[of "\<lparr>Hits = 0, Misses = 0, Evictions = 0, Size_field = 0\<rparr>"]
  have "HitRate \<lparr>Hits = 0, Misses = 0, Evictions = 0, Size_field = 0\<rparr> = Finite 0" by simp
  moreover from hit_rate[of "\<lparr>Hits = 0, Misses = 4, Evictions = 0, Size_field = 0\<rparr>"]
  have "HitRate \<lparr>Hits = 0, Misses = 4, Evictions = 0, Size_field = 0\<rparr> = Finite 0" by simp
  moreover have nz: "(18446744073709551615 :: uint64) + 2 \<noteq> 0" by simp
  moreover have u1: "uint ((18446744073709551615 :: uint64) + 2) = 1" by simp
  have u2: "uint (18446744073709551615 :: uint64) = 18446744073709551615" by simp
  from hit_rate[of ?t] nz
  have "\<exists>r. HitRate ?t = Finite r \<and>
          \<bar>r - 100 * real_of_int (uint (18446744073709551615 :: uint64)) / real_of_int (uint ((18446744073709551615 :: uint64) + 2))\<bar>
            \<le> (100 * real_of_int (uint (18446744073709551615 :: uint64)) / real_of_int (uint ((18446744073709551615 :: uint64) + 2))) / 2 ^ 50"
    by simp
  then have "\<exists>r. HitRate ?t = Finite r \<and>
        \<bar>r - 100 * 18446744073709551615 / 1\<bar> \<le> (100 * 18446744073709551615 / 1) / 2 ^ 50"
    unfolding u1 u2 by simp
  ultimately show ?thesis using nw r e by blast
qed

text \<open>
  The claim as stated (the result equals the percentage, for every \<^verbatim>\<open>CacheStats\<close>
  value) fails in two ways. The result is a \<^verbatim>\<open>float64\<close>: for one hit and two misses
  it is \<open>2345624805922133 / 2^46\<close>, which is not \<open>1 / (1 + 2) * 100\<close>. And the
  total is a \<^verbatim>\<open>uint64\<close>: for \<open>2^63\<close> hits and \<open>2^63\<close> misses the sum wraps to
  0 and the result is 0, while the percentage is 50.
\<close>

theorem hit_rate_counterexample:
  "HitRate \<lparr>Hits = 1, Misses = 2, Evictions = 0, Size_field = 0\<rparr>
     = Finite (2345624805922133 / 70368744177664) \<and>
   (2345624805922133 / 70368744177664 :: real) \<noteq> 1 / (1 + 2) * 100 \<and>
   HitRate \<lparr>Hits = 9223372036854775808, Misses = 9223372036854775808, Evictions = 0,
            Size_field = 0\<rparr> = Finite 0 \<and>
   (9223372036854775808 / (9223372036854775808 + 9223372036854775808) * 100 :: real) = 50"
  using HitRate_one_of_three HitRate_wrapped_total by simp

end
